theory Spec2Isabelle
  imports Main "HOL-Library.Word" "HOL-Library.List_Lexorder"
begin

unbundle bit_operations_syntax

section \<open>Bytes, integers and errors\<close>

text \<open>
  A Go \<^verbatim>\<open>[]byte\<close> is a list of 8-bit words (\<^verbatim>\<open>nil\<close> and the empty slice are both
  \<open>[]\<close>: the code tests them by \<^verbatim>\<open>len\<close> only). \<^verbatim>\<open>uint64\<close> and \<^verbatim>\<open>int64\<close> are 64-bit
  words, so \<open>+\<close> and \<open>-\<close> wrap around as in Go. A Go \<^verbatim>\<open>string\<close> is a \<open>string\<close>.
\<close>

type_synonym byte = "8 word"
type_synonym bytes = "byte list"
type_synonym uint64 = "64 word"
type_synonym int64 = "64 word"
type_synonym int32 = "32 word"

text \<open>
  Go errors. \<open>New s\<close> is \<^verbatim>\<open>errors.New(s)\<close>; \<open>ErrNotFound\<close> and \<open>ErrIO\<close> are the errors the
  store returns (a missing key, an I/O failure). \<open>Error\<close> is the method \<^verbatim>\<open>err.Error()\<close>.
\<close>

datatype error = New string | ErrNotFound | ErrIO string

fun Error :: "error \<Rightarrow> string" where
  "Error (New s) = s"
| "Error ErrNotFound = ''leveldb: not found''"
| "Error (ErrIO s) = s"

subsection \<open>encoding/binary, big endian\<close>

text \<open>
  \<^verbatim>\<open>binary.BigEndian.PutUint64(key, v)\<close> on a fresh 8-byte slice, and
  \<^verbatim>\<open>binary.BigEndian.Uint64(b)\<close>, which panics (\<open>None\<close>) when \<^verbatim>\<open>b\<close> has fewer than 8 bytes.
\<close>

definition PutUint64 :: "uint64 \<Rightarrow> bytes" where
  "PutUint64 v =
     [ucast (drop_bit 56 v), ucast (drop_bit 48 v), ucast (drop_bit 40 v), ucast (drop_bit 32 v),
      ucast (drop_bit 24 v), ucast (drop_bit 16 v), ucast (drop_bit 8 v), ucast v]"

definition Uint64 :: "bytes \<Rightarrow> uint64 option" where
  "Uint64 b =
     (if length b < 8 then None
      else Some (ucast (b ! 7) OR push_bit 8 (ucast (b ! 6)) OR push_bit 16 (ucast (b ! 5))
                 OR push_bit 24 (ucast (b ! 4)) OR push_bit 32 (ucast (b ! 3))
                 OR push_bit 40 (ucast (b ! 2)) OR push_bit 48 (ucast (b ! 1))
                 OR push_bit 56 (ucast (b ! 0))))"

section \<open>The ordered key-value store\<close>

text \<open>
  The store is the external dependency of the queue (goleveldb). Its contract: a map from
  byte keys to byte values, iterated in ascending lexicographic key order, with atomic
  single-key operations. \<open>kv\<close> holds the entries in ascending key order. Every call can fail
  with an I/O error: \<open>faults\<close> is the outcome the environment gives to each of the
  successive calls (\<open>None\<close>, or no entry left: the call works). A call that fails leaves the
  entries as they are.
\<close>

record DB =
  kv :: "(bytes \<times> bytes) list"
  faults :: "error option list"

definition next_fault :: "DB \<Rightarrow> error option \<times> DB" where
  "next_fault d = (case faults d of [] \<Rightarrow> (None, d) | f # fs \<Rightarrow> (f, d\<lparr>faults := fs\<rparr>))"

fun insert_kv :: "bytes \<Rightarrow> bytes \<Rightarrow> (bytes \<times> bytes) list \<Rightarrow> (bytes \<times> bytes) list" where
  "insert_kv k v [] = [(k, v)]"
| "insert_kv k v ((k', v') # r) =
     (if k < k' then (k, v) # (k', v') # r
      else if k = k' then (k, v) # r
      else (k', v') # insert_kv k v r)"

definition delete_kv :: "bytes \<Rightarrow> (bytes \<times> bytes) list \<Rightarrow> (bytes \<times> bytes) list" where
  "delete_kv k r = filter (\<lambda>e. fst e \<noteq> k) r"

definition DB_Put :: "DB \<Rightarrow> bytes \<Rightarrow> bytes \<Rightarrow> error option \<times> DB" where
  "DB_Put d key val =
     (case next_fault d of
        (Some e, d') \<Rightarrow> (Some e, d')
      | (None, d') \<Rightarrow> (None, d'\<lparr>kv := insert_kv key val (kv d')\<rparr>))"

definition DB_Get :: "DB \<Rightarrow> bytes \<Rightarrow> (bytes \<times> error option) \<times> DB" where
  "DB_Get d key =
     (case next_fault d of
        (Some e, d') \<Rightarrow> (([], Some e), d')
      | (None, d') \<Rightarrow>
          (case map_of (kv d') key of
             None \<Rightarrow> (([], Some ErrNotFound), d')
           | Some v \<Rightarrow> ((v, None), d')))"

definition DB_Delete :: "DB \<Rightarrow> bytes \<Rightarrow> error option \<times> DB" where
  "DB_Delete d key =
     (case next_fault d of
        (Some e, d') \<Rightarrow> (Some e, d')
      | (None, d') \<Rightarrow> (None, d'\<lparr>kv := delete_kv key (kv d')\<rparr>))"

text \<open>
  The iterator of the store, as \<open>initialize\<close> uses it. It reads the entries in ascending key
  order and takes the outcome of each move from the store's environment; once a move has
  failed, the iterator holds the error and every later move returns false.
\<close>

record Iterator =
  src :: DB
  cur :: "bytes option"
  iter_err :: "error option"

definition NewIterator :: "DB \<Rightarrow> Iterator" where
  "NewIterator d = \<lparr>src = d, cur = None, iter_err = None\<rparr>"

definition move :: "((bytes \<times> bytes) list \<Rightarrow> bytes option) \<Rightarrow> Iterator \<Rightarrow> bool \<times> Iterator" where
  "move pick it =
     (if iter_err it \<noteq> None then (False, it\<lparr>cur := None\<rparr>)
      else
        case next_fault (src it) of
          (Some e, d) \<Rightarrow> (False, it\<lparr>src := d, cur := None, iter_err := Some e\<rparr>)
        | (None, d) \<Rightarrow>
            (case pick (kv d) of
               None \<Rightarrow> (False, it\<lparr>src := d, cur := None\<rparr>)
             | Some k \<Rightarrow> (True, it\<lparr>src := d, cur := Some k\<rparr>)))"

definition First :: "Iterator \<Rightarrow> bool \<times> Iterator" where
  "First it = move (\<lambda>es. case es of [] \<Rightarrow> None | e # _ \<Rightarrow> Some (fst e)) it"

definition Last :: "Iterator \<Rightarrow> bool \<times> Iterator" where
  "Last it = move (\<lambda>es. case es of [] \<Rightarrow> None | _ # _ \<Rightarrow> Some (fst (last es))) it"

definition Key_it :: "Iterator \<Rightarrow> bytes" where
  "Key_it it = (case cur it of None \<Rightarrow> [] | Some k \<Rightarrow> k)"

definition Release :: "Iterator \<Rightarrow> DB" where
  "Release it = src it"

text \<open>
  \<^verbatim>\<open>leveldb.OpenFile(path, o)\<close>: \<open>fs\<close> is the data directory, giving the store found at each
  path (a path never written holds the empty store). On failure the handle is \<^verbatim>\<open>nil\<close>.
\<close>

definition nil_DB :: DB where
  "nil_DB = \<lparr>kv = [], faults = []\<rparr>"

definition OpenFile :: "(string \<Rightarrow> DB) \<Rightarrow> string \<Rightarrow> DB \<times> error option" where
  "OpenFile fs path =
     (case next_fault (fs path) of
        (Some e, d) \<Rightarrow> (nil_DB, Some e)
      | (None, d) \<Rightarrow> (d, None))"

section \<open>The persistent queue\<close>

record Stats =
  OpenTransactions :: int64

record Item =
  Key :: bytes
  Value :: bytes
  Size :: int32

record Queue =
  Name :: string
  DataDir :: string
  Stats :: Stats
  head :: uint64
  tail :: uint64
  db :: DB
  isOpened :: bool

definition Path :: "Queue \<Rightarrow> string" where
  "Path q = DataDir q @ ''/'' @ Name q"

definition length_q :: "Queue \<Rightarrow> uint64" where
  "length_q q = tail q - head q"

definition peek :: "Queue \<Rightarrow> (Item \<times> error option) \<times> Queue" where
  "peek q =
     (if length_q q < 1
      then ((\<lparr>Key = [], Value = [], Size = 0\<rparr>, Some (New ''Queue is empty'')), q)
      else
        let key = PutUint64 (head q + 1);
            ((val, err), d) = DB_Get (db q) key;
            item = \<lparr>Key = key, Value = val, Size = of_nat (length val)\<rparr>
        in ((item, err), q\<lparr>db := d\<rparr>))"

definition Length :: "Queue \<Rightarrow> uint64" where
  "Length q = length_q q"

definition Peek :: "Queue \<Rightarrow> (Item \<times> error option) \<times> Queue" where
  "Peek q = peek q"

definition Enqueue :: "bytes \<Rightarrow> Queue \<Rightarrow> error option \<times> Queue" where
  "Enqueue val q =
     (let key = PutUint64 (tail q + 1);
          (err, d) = DB_Put (db q) key val;
          q' = q\<lparr>db := d\<rparr>
      in if err = None then (err, q'\<lparr>tail := tail q' + 1\<rparr>) else (err, q'))"

definition Dequeue :: "Queue \<Rightarrow> (Item \<times> error option) \<times> Queue" where
  "Dequeue q =
     (let ((item, err), q1) = peek q
      in if err \<noteq> None then ((item, err), q1)
         else
           let (err', d) = DB_Delete (db q1) (Key item);
               q2 = q1\<lparr>db := d\<rparr>
           in if err' = None then ((item, err'), q2\<lparr>head := head q2 + 1\<rparr>)
              else ((item, err'), q2))"

definition Prepend :: "Item \<Rightarrow> Queue \<Rightarrow> error option \<times> Queue" where
  "Prepend item q =
     (if head q < 1 then (Some (New ''Queue head can not be less then zero''), q)
      else
        let key = PutUint64 (head q);
            (err, d) = DB_Put (db q) key (Value item);
            q' = q\<lparr>db := d\<rparr>
        in if err = None then (err, q'\<lparr>head := head q' - 1\<rparr>) else (err, q'))"

definition AddOpenTransactions :: "int64 \<Rightarrow> Queue \<Rightarrow> Queue" where
  "AddOpenTransactions n q =
     q\<lparr>Stats := (Stats q)\<lparr>OpenTransactions := OpenTransactions (Stats q) + n\<rparr>\<rparr>"

text \<open>
  \<open>initialize\<close> reads the first and the last key of the store. \<^verbatim>\<open>binary.BigEndian.Uint64\<close>
  panics on a key shorter than 8 bytes: the result is then \<open>None\<close>.
\<close>

definition initialize :: "Queue \<Rightarrow> (error option \<times> Queue) option" where
  "initialize q =
     (let iter = NewIterator (db q);
          (ok1, iter1) = First iter
      in case (if ok1 then map_option (\<lambda>k. q\<lparr>head := k - 1\<rparr>) (Uint64 (Key_it iter1))
               else Some q) of
           None \<Rightarrow> None
         | Some q1 \<Rightarrow>
             let (ok2, iter2) = Last iter1
             in (case (if ok2 then map_option (\<lambda>k. q1\<lparr>tail := k\<rparr>) (Uint64 (Key_it iter2))
                       else Some q1) of
                   None \<Rightarrow> None
                 | Some q2 \<Rightarrow> Some (iter_err iter2, q2\<lparr>db := Release iter2\<rparr>)))"

text \<open>
  The characters a queue name may have: the regular expression \<^verbatim>\<open>[^a-zA-Z0-9_]+\<close> of
  \<open>open\<close> matches a name exactly when one of its characters is not among them.
\<close>

definition name_char :: "char \<Rightarrow> bool" where
  "name_char c \<longleftrightarrow>
     c \<in> set ''abcdefghijklmnopqrstuvwxyzABCDEFGHIJKLMNOPQRSTUVWXYZ0123456789_''"

definition open_q :: "(string \<Rightarrow> DB) \<Rightarrow> Queue \<Rightarrow> (error option \<times> Queue) option" where
  "open_q fs q =
     (if \<not> list_all name_char (Name q) then Some (Some (New ''Queue name is not alphanumeric''), q)
      else if length (Name q) > 100 then Some (Some (New ''Queue name is too long''), q)
      else
        let (d, err) = OpenFile fs (Path q);
            q1 = q\<lparr>db := d\<rparr>
        in if err \<noteq> None then Some (err, q1)
           else initialize (q1\<lparr>isOpened := True\<rparr>))"

definition Open :: "string \<Rightarrow> string \<Rightarrow> (string \<Rightarrow> DB) \<Rightarrow> (Queue \<times> error option) option" where
  "Open name dataDir fs =
     (let q = \<lparr>Name = name, DataDir = dataDir, Stats = \<lparr>OpenTransactions = 0\<rparr>,
                head = 0, tail = 0, db = nil_DB, isOpened = False\<rparr>
      in map_option (\<lambda>(err, q'). (q', err)) (open_q fs q))"

subsection \<open>The queue at rest\<close>

text \<open>
  A queue is at rest when the ascending iteration of the store yields exactly the keys
  \<open>head + 1\<close> \<dots> \<open>tail\<close>, big-endian encoded: \<open>tail - head\<close> keys, counted from \<open>head + 1\<close> modulo
  \<open>2 ^ 64\<close> as the counters are. \<open>queue_keys q\<close> is the set of these numbers (when
  \<open>head \<le> tail\<close> they are the \<open>k\<close> with \<open>head < k \<le> tail\<close>).
\<close>

definition at_rest :: "Queue \<Rightarrow> bool" where
  "at_rest q \<longleftrightarrow>
     map fst (kv (db q)) =
       sort (map (\<lambda>i. PutUint64 (head q + 1 + of_nat i)) [0..<unat (length_q q)])"

definition queue_keys :: "Queue \<Rightarrow> uint64 set" where
  "queue_keys q = {k. k - (head q + 1) < length_q q}"

text \<open>The number a byte list denotes in base 256, most significant byte first.\<close>

fun be_val :: "bytes \<Rightarrow> nat" where
  "be_val [] = 0"
| "be_val (x # xs) = unat x * 256 ^ length xs + be_val xs"

subsection \<open>Runs of operations\<close>

text \<open>
  \<open>Enqueues vs q\<close> enqueues the values \<open>vs\<close> one after the other and returns the error of each
  call; \<open>Dequeues n q\<close> calls Dequeue \<open>n\<close> times and returns the results. \<open>queue_values q xs\<close>: the
  queue holds the values \<open>xs\<close>, in this order, under its keys \<open>head + 1\<close>, \<open>head + 2\<close>, \<dots>
\<close>

fun Enqueues :: "bytes list \<Rightarrow> Queue \<Rightarrow> error option list \<times> Queue" where
  "Enqueues [] q = ([], q)"
| "Enqueues (v # vs) q =
     (let (err, q1) = Enqueue v q;
          (errs, q2) = Enqueues vs q1
      in (err # errs, q2))"

fun Dequeues :: "nat \<Rightarrow> Queue \<Rightarrow> (Item \<times> error option) list \<times> Queue" where
  "Dequeues 0 q = ([], q)"
| "Dequeues (Suc n) q =
     (let (r, q1) = Dequeue q;
          (rs, q2) = Dequeues n q1
      in (r # rs, q2))"

definition queue_values :: "Queue \<Rightarrow> bytes list \<Rightarrow> bool" where
  "queue_values q xs \<longleftrightarrow>
     length xs = unat (length_q q) \<and>
     (\<forall>i < length xs. map_of (kv (db q)) (PutUint64 (head q + 1 + of_nat i)) = Some (xs ! i))"

subsection \<open>Example queues\<close>

definition fresh_db :: DB where
  "fresh_db = \<lparr>kv = [], faults = []\<rparr>"

definition fresh_queue :: Queue where
  "fresh_queue = \<lparr>Name = ''test'', DataDir = ''data'', Stats = \<lparr>OpenTransactions = 0\<rparr>,
     head = 0, tail = 0, db = fresh_db, isOpened = True\<rparr>"

text \<open>A queue that holds the one item \<open>[7]\<close> under key 1.\<close>

definition one_queue :: Queue where
  "one_queue = fresh_queue\<lparr>tail := 1, db := \<lparr>kv = [([0, 0, 0, 0, 0, 0, 0, 1], [7])], faults = []\<rparr>\<rparr>"

text \<open>The same queue after \<open>[8]\<close> has been enqueued, and the item the first holds.\<close>

definition two_queue :: Queue where
  "two_queue = one_queue\<lparr>tail := 2, db := \<lparr>kv = [([0, 0, 0, 0, 0, 0, 0, 1], [7]),
     ([0, 0, 0, 0, 0, 0, 0, 2], [8])], faults = []\<rparr>\<rparr>"

definition first_item :: Item where
  "first_item = \<lparr>Key = [0, 0, 0, 0, 0, 0, 0, 1], Value = [7], Size = 1\<rparr>"

definition second_item :: Item where
  "second_item = \<lparr>Key = [0, 0, 0, 0, 0, 0, 0, 2], Value = [8], Size = 1\<rparr>"

definition emptied_queue :: Queue where
  "emptied_queue = fresh_queue\<lparr>head := 2, tail := 2\<rparr>"

text \<open>The first queue after its item has been dequeued, and a queue whose store fails
  at the next call.\<close>

definition dequeued_queue :: Queue where
  "dequeued_queue = one_queue\<lparr>head := 1, db := fresh_db\<rparr>"

definition failing_queue :: Queue where
  "failing_queue = dequeued_queue\<lparr>db := \<lparr>kv = [], faults = [Some (ErrIO ''disk full'')]\<rparr>\<rparr>"

section \<open>The GET command\<close>

subsection \<open>Strings and formatting\<close>

definition bytes_of :: "string \<Rightarrow> bytes" where
  "bytes_of s = map of_char s"

definition CRLF :: string where
  "CRLF = [CHR 0x0D, CHR 0x0A]"

fun itoa :: "nat \<Rightarrow> string" where
  "itoa n = (if n < 10 then [''0123456789'' ! n] else itoa (n div 10) @ [''0123456789'' ! (n mod 10)])"

declare itoa.simps [simp del]

definition HasPrefix :: "string \<Rightarrow> string \<Rightarrow> bool" where
  "HasPrefix s p \<longleftrightarrow> take (length p) s = p"

fun Contains :: "string \<Rightarrow> string \<Rightarrow> bool" where
  "Contains [] sub = (sub = [])"
| "Contains (c # cs) sub = (HasPrefix (c # cs) sub \<or> Contains cs sub)"

definition isDigit :: "char \<Rightarrow> bool" where
  "isDigit c \<longleftrightarrow> c \<in> set ''0123456789''"

text \<open>
  \<^verbatim>\<open>timeoutRegexp.ReplaceAllString(s, "")\<close> for \<^verbatim>\<open>(t\=\d+)\/?\<close>: scanning from the left, each
  \<^verbatim>\<open>t=\<close> followed by one digit or more is removed, with all the digits that follow and one
  \<^verbatim>\<open>/\<close> after them if there is one; the scan goes on after the match.
\<close>

function timeoutRegexp_ReplaceAll :: "string \<Rightarrow> string" where
  "timeoutRegexp_ReplaceAll [] = []"
| "timeoutRegexp_ReplaceAll (c # cs) =
     (if c = CHR ''t'' \<and> take 1 cs = ''='' \<and> takeWhile isDigit (drop 1 cs) \<noteq> []
      then timeoutRegexp_ReplaceAll
             (let rest = dropWhile isDigit (drop 1 cs)
              in if take 1 rest = ''/'' then drop 1 rest else rest)
      else c # timeoutRegexp_ReplaceAll cs)"
  by pat_completeness auto
termination
proof (relation "measure length")
  fix c :: char and cs :: string
  have "length (dropWhile isDigit (drop 1 cs)) \<le> length cs"
    by (rule order_trans [OF length_dropWhile_le]) simp
  then have "length (dropWhile isDigit (drop 1 cs)) < length (c # cs)"
    and "length (drop 1 (dropWhile isDigit (drop 1 cs))) < length (c # cs)"
    by simp_all
  then show "((let rest = dropWhile isDigit (drop 1 cs)
               in if take 1 rest = ''/'' then drop 1 rest else rest), c # cs) \<in> measure length"
    unfolding Let_def by (simp only: in_measure if_split) simp
qed simp_all

declare timeoutRegexp_ReplaceAll.simps [simp del]

text \<open>
  \<^verbatim>\<open>strings.SplitN(s, "/", 2)\<close> on a string that contains \<^verbatim>\<open>/\<close>, and
  \<^verbatim>\<open>strings.Trim(s, "/")\<close>.
\<close>

definition SplitN2 :: "string \<Rightarrow> string \<times> string" where
  "SplitN2 s = (takeWhile (\<lambda>c. c \<noteq> CHR ''/'') s, drop 1 (dropWhile (\<lambda>c. c \<noteq> CHR ''/'') s))"

definition Trim :: "string \<Rightarrow> string" where
  "Trim s = rev (dropWhile (\<lambda>c. c = CHR ''/'') (rev (dropWhile (\<lambda>c. c = CHR ''/'') s)))"

subsection \<open>The command parser\<close>

record Command =
  Name :: string
  QueueName :: string
  SubCommand :: string

text \<open>
  \<^verbatim>\<open>input[0]\<close> and \<^verbatim>\<open>input[1]\<close> panic on a shorter slice: the result is then \<open>None\<close>. The
  source also stores the argument without its timeouts back into \<^verbatim>\<open>input[1]\<close>; the model
  returns the command only.
\<close>

fun parseGetCommand :: "string list \<Rightarrow> Command option" where
  "parseGetCommand (name # arg # rest) =
     (let cmd = \<lparr>Name = name, QueueName = arg, SubCommand = []\<rparr>;
          arg1 = (if Contains arg ''t='' then timeoutRegexp_ReplaceAll arg else arg)
      in if Contains arg1 ''/''
         then let (t0, t1) = SplitN2 arg1
              in Some (cmd\<lparr>QueueName := t0, SubCommand := Trim t1\<rparr>)
         else Some cmd)"
| "parseGetCommand _ = None"

text \<open>
  The arguments of the grammar \<^verbatim>\<open>q(/<tok>)*\<close>: a token is a timeout \<^verbatim>\<open>t=<digits>\<close>, with one
  digit or more, or one of the four sub-command words. \<open>get_argument q ts\<close> is the text of the
  argument, \<open>join_slash (non_timeout ts)\<close> the words that are not timeouts, joined by
  \<^verbatim>\<open>/\<close> in their order.
\<close>

datatype token = Timeout string | Sub string

fun render :: "token \<Rightarrow> string" where
  "render (Timeout ds) = ''t='' @ ds"
| "render (Sub w) = w"

fun token_ok :: "token \<Rightarrow> bool" where
  "token_ok (Timeout ds) \<longleftrightarrow> ds \<noteq> [] \<and> list_all isDigit ds"
| "token_ok (Sub w) \<longleftrightarrow> w \<in> set [''open'', ''close'', ''abort'', ''peek'']"

definition get_argument :: "string \<Rightarrow> token list \<Rightarrow> string" where
  "get_argument q ts = q @ concat (map (\<lambda>t. CHR ''/'' # render t) ts)"

fun non_timeout :: "token list \<Rightarrow> string list" where
  "non_timeout [] = []"
| "non_timeout (Timeout ds # ts) = non_timeout ts"
| "non_timeout (Sub w # ts) = w # non_timeout ts"

fun join_slash :: "string list \<Rightarrow> string" where
  "join_slash [] = []"
| "join_slash [w] = w"
| "join_slash (w # v # ws) = w @ CHR ''/'' # join_slash (v # ws)"

subsection \<open>The repository and the session\<close>

record RepoStats =
  CmdGet :: uint64

text \<open>
  The repository: \<open>storage\<close> is the directory of the open queues by name, \<open>files\<close> the stores
  of the data directory by path. A queue is shared by reference between the repository and
  the handlers: \<open>put_queue\<close> writes back, under its name, the queue a handler has worked on.
\<close>

record QueueRepository =
  DataPath :: string
  storage :: "string \<rightharpoonup> Queue"
  Stats :: RepoStats
  files :: "string \<Rightarrow> DB"

definition put_queue :: "string \<Rightarrow> Queue \<Rightarrow> QueueRepository \<Rightarrow> QueueRepository" where
  "put_queue name q r = r\<lparr>storage := (storage r)(name \<mapsto> q)\<rparr>"

text \<open>
  Modelled from the spec: \<open>GetQueue\<close> is the repository's method, which is not among the
  sources. The spec (4.2): if the queue is present, it returns the existing queue; else it
  opens one with \<open>Open\<close> and inserts it; it fails when \<open>Open\<close> fails.
\<close>

definition GetQueue :: "string \<Rightarrow> QueueRepository \<Rightarrow> ((error + Queue) \<times> QueueRepository) option" where
  "GetQueue name r =
     (case storage r name of
        Some q \<Rightarrow> Some (Inr q, r)
      | None \<Rightarrow>
          (case Open name (DataPath r) (files r) of
             None \<Rightarrow> None
           | Some (q, Some err) \<Rightarrow> Some (Inl err, r)
           | Some (q, None) \<Rightarrow> Some (Inr q, put_queue name q r)))"

text \<open>
  The session. \<open>rw\<close> is what has been written to the client so far. \<open>currentItem\<close> is the
  item the session holds (\<open>None\<close> is \<^verbatim>\<open>nil\<close>: the session is idle), \<open>currentCommand\<close> the
  command that reserved it.
\<close>

record Controller =
  rw :: bytes
  repo :: QueueRepository
  currentItem :: "Item option"
  currentCommand :: "Command option"

text \<open>
  Modelled from the spec: \<open>setCurrentState\<close> is a method of the session that is not among the
  sources. The spec (3, 9): the reservation is the queue name and the item, two fields that
  move together; \<^verbatim>\<open>setCurrentState(nil, nil)\<close> makes the session idle.
\<close>

definition setCurrentState :: "Command option \<Rightarrow> Item option \<Rightarrow> Controller \<Rightarrow> Controller" where
  "setCurrentState cmd item c = c\<lparr>currentCommand := cmd, currentItem := item\<rparr>"

definition Fprint :: "string \<Rightarrow> Controller \<Rightarrow> Controller" where
  "Fprint s c = c\<lparr>rw := rw c @ bytes_of s\<rparr>"

text \<open>The two \<^verbatim>\<open>Fprintf\<close> calls that send an item: the \<^verbatim>\<open>VALUE\<close> line and the data block.\<close>

definition write_value :: "string \<Rightarrow> Item \<Rightarrow> Controller \<Rightarrow> Controller" where
  "write_value name item c =
     c\<lparr>rw := rw c @ bytes_of (''VALUE '' @ name @ '' 0 '' @ itoa (length (Value item)) @ CRLF)
                  @ Value item @ bytes_of CRLF\<rparr>"

definition count_get :: "Controller \<Rightarrow> Controller" where
  "count_get c =
     c\<lparr>repo := (repo c)\<lparr>Stats := (QueueRepository.Stats (repo c))
                                    \<lparr>CmdGet := CmdGet (QueueRepository.Stats (repo c)) + 1\<rparr>\<rparr>\<rparr>"

subsection \<open>The handlers\<close>

definition get :: "Command \<Rightarrow> Controller \<Rightarrow> (error option \<times> Controller) option" where
  "get cmd c =
     (if currentItem c \<noteq> None
      then Some (Some (New (''CLIENT_ERROR '' @ ''Close current item first'')), c)
      else
        case GetQueue (QueueName cmd) (repo c) of
          None \<Rightarrow> None
        | Some (Inl err, r) \<Rightarrow> Some (Some (New (''SERVER_ERROR '' @ Error err)), c\<lparr>repo := r\<rparr>)
        | Some (Inr q, r) \<Rightarrow>
            let ((item, _), q1) = Dequeue q;
                c1 = c\<lparr>repo := r\<rparr>;
                c2 = (if length (Value item) > 0 then write_value (QueueName cmd) item c1 else c1);
                (c3, q2) = (if Contains (SubCommand cmd) ''open'' \<and> length (Value item) > 0
                            then (setCurrentState (Some cmd) (Some item) c2, AddOpenTransactions 1 q1)
                            else (c2, q1));
                c4 = c3\<lparr>repo := put_queue (QueueName cmd) q2 (repo c3)\<rparr>
            in Some (None, count_get c4))"

definition getClose :: "Command \<Rightarrow> Controller \<Rightarrow> (error option \<times> Controller) option" where
  "getClose cmd c =
     (case GetQueue (QueueName cmd) (repo c) of
        None \<Rightarrow> None
      | Some (Inl err, r) \<Rightarrow> Some (Some (New (''SERVER_ERROR '' @ Error err)), c\<lparr>repo := r\<rparr>)
      | Some (Inr q, r) \<Rightarrow>
          let c1 = c\<lparr>repo := r\<rparr>
          in if currentItem c1 \<noteq> None
             then Some (None, setCurrentState None None
                    (c1\<lparr>repo := put_queue (QueueName cmd) (AddOpenTransactions (- 1) q) (repo c1)\<rparr>))
             else Some (None, c1))"

definition abort :: "Command \<Rightarrow> Controller \<Rightarrow> (error option \<times> Controller) option" where
  "abort cmd c =
     (case currentItem c of
        None \<Rightarrow> Some (None, c)
      | Some item \<Rightarrow>
          (case GetQueue (QueueName cmd) (repo c) of
             None \<Rightarrow> None
           | Some (Inl err, r) \<Rightarrow> Some (Some (New (''SERVER_ERROR '' @ Error err)), c\<lparr>repo := r\<rparr>)
           | Some (Inr q, r) \<Rightarrow>
               let (err, q1) = Prepend item q;
                   c1 = c\<lparr>repo := put_queue (QueueName cmd) q1 r\<rparr>
               in (case err of
                     Some e \<Rightarrow> Some (Some (New (''SERVER_ERROR '' @ Error e)), c1)
                   | None \<Rightarrow>
                       if currentItem c1 \<noteq> None
                       then Some (None, setCurrentState None None
                              (c1\<lparr>repo := put_queue (QueueName cmd) (AddOpenTransactions (- 1) q1) (repo c1)\<rparr>))
                       else Some (None, c1))))"

definition getAbort :: "Command \<Rightarrow> Controller \<Rightarrow> (error option \<times> Controller) option" where
  "getAbort cmd c =
     (case abort cmd c of
        None \<Rightarrow> None
      | Some (Some err, c') \<Rightarrow> Some (Some err, c')
      | Some (None, c') \<Rightarrow> Some (None, c'))"

definition peek_c :: "Command \<Rightarrow> Controller \<Rightarrow> (error option \<times> Controller) option" where
  "peek_c cmd c =
     (case GetQueue (QueueName cmd) (repo c) of
        None \<Rightarrow> None
      | Some (Inl err, r) \<Rightarrow> Some (Some (New (''SERVER_ERROR '' @ Error err)), c\<lparr>repo := r\<rparr>)
      | Some (Inr q, r) \<Rightarrow>
          let ((item, _), q1) = Peek q;
              c1 = c\<lparr>repo := put_queue (QueueName cmd) q1 r\<rparr>;
              c2 = (if length (Value item) > 0 then write_value (QueueName cmd) item c1 else c1)
          in Some (None, count_get c2))"

definition Get :: "string list \<Rightarrow> Controller \<Rightarrow> (error option \<times> Controller) option" where
  "Get input c =
     (case parseGetCommand input of
        None \<Rightarrow> None
      | Some cmd \<Rightarrow>
          (case (if SubCommand cmd = [] \<or> SubCommand cmd = ''open'' then get cmd c
                 else if SubCommand cmd = ''close'' then getClose cmd c
                 else if SubCommand cmd = ''close/open''
                   then (case getClose cmd c of
                           Some (None, c') \<Rightarrow> get cmd c'
                         | r \<Rightarrow> r)
                 else if SubCommand cmd = ''abort'' then getAbort cmd c
                 else if SubCommand cmd = ''peek'' then peek_c cmd c
                 else Some (Some (New (''ERROR '' @ ''Invalid command'')), c)) of
             None \<Rightarrow> None
           | Some (Some err, c') \<Rightarrow> Some (Some err, c')
           | Some (None, c') \<Rightarrow> Some (None, Fprint (''END'' @ CRLF) c')))"

subsection \<open>Example sessions\<close>

text \<open>
  A repository with four queues: \<open>a\<close> holds the item \<open>[7]\<close>, \<open>b\<close> is empty, \<open>z\<close> holds one item
  of length zero, and \<open>f\<close> holds the item \<open>[7]\<close> in a store whose next call fails.
\<close>

definition queue_a :: Queue where
  "queue_a = one_queue\<lparr>Queue.Name := ''a''\<rparr>"

definition queue_b :: Queue where
  "queue_b = fresh_queue\<lparr>Queue.Name := ''b''\<rparr>"

definition queue_z :: Queue where
  "queue_z = one_queue\<lparr>Queue.Name := ''z'',
     db := \<lparr>kv = [([0, 0, 0, 0, 0, 0, 0, 1], [])], faults = []\<rparr>\<rparr>"

definition queue_f :: Queue where
  "queue_f = one_queue\<lparr>Queue.Name := ''f'',
     db := \<lparr>kv = [([0, 0, 0, 0, 0, 0, 0, 1], [7])], faults = [Some (ErrIO ''disk full'')]\<rparr>\<rparr>"

definition idle_session :: Controller where
  "idle_session =
     \<lparr>rw = [],
      repo = \<lparr>DataPath = ''data'',
              storage = [''a'' \<mapsto> queue_a, ''b'' \<mapsto> queue_b, ''z'' \<mapsto> queue_z, ''f'' \<mapsto> queue_f],
              Stats = \<lparr>CmdGet = 0\<rparr>, files = (\<lambda>_. fresh_db)\<rparr>,
      currentItem = None, currentCommand = None\<rparr>"

text \<open>The session a command leaves behind, and the open transactions of a queue in it.\<close>

definition session_after :: "string list \<Rightarrow> Controller \<Rightarrow> Controller" where
  "session_after input c = (case Get input c of Some (_, c') \<Rightarrow> c' | None \<Rightarrow> c)"

definition openTx :: "string \<Rightarrow> Controller \<Rightarrow> int64 option" where
  "openTx name c = map_option (\<lambda>q. OpenTransactions (Queue.Stats q)) (storage (repo c) name)"

text \<open>The session after \<^verbatim>\<open>get a/open\<close>: it holds the item of \<open>a\<close>.\<close>

definition holding_session :: Controller where
  "holding_session = session_after [''get'', ''a/open''] idle_session"

text \<open>
  The same session over a data directory whose stores hold an entry with a key of one
  byte: \<open>Open\<close> panics there when it decodes the key.
\<close>

definition short_key_session :: Controller where
  "short_key_session =
     holding_session\<lparr>repo := (repo holding_session)\<lparr>files := (\<lambda>_. \<lparr>kv = [([1], [7])], faults = []\<rparr>)\<rparr>\<rparr>"

lemmas eval_defs = Get_def get_def getClose_def getAbort_def abort_def peek_c_def GetQueue_def
  put_queue_def setCurrentState_def Fprint_def write_value_def count_get_def
  HasPrefix_def SplitN2_def Trim_def Let_def
  Dequeue_def Peek_def peek_def Prepend_def Enqueue_def length_q_def AddOpenTransactions_def
  DB_Get_def DB_Put_def DB_Delete_def delete_kv_def next_fault_def PutUint64_def
  queue_a_def queue_b_def queue_z_def queue_f_def one_queue_def fresh_queue_def fresh_db_def
  first_item_def idle_session_def session_after_def openTx_def

section \<open>Facts about the encoding, the store and the queue operations\<close>

lemma map_of_insert_kv: "map_of (insert_kv k v r) = (map_of r)(k \<mapsto> v)"
  by (induction r) (auto simp: fun_upd_twist)

lemma map_of_delete_kv: "map_of (delete_kv k r) = (map_of r)(k := None)"
  by (induction r) (auto simp: delete_kv_def)

lemma Uint64_PutUint64: "Uint64 (PutUint64 v) = Some v"
proof -
  have "ucast (ucast v :: byte) OR push_bit 8 (ucast (ucast (drop_bit 8 v) :: byte))
      OR push_bit 16 (ucast (ucast (drop_bit 16 v) :: byte))
      OR push_bit 24 (ucast (ucast (drop_bit 24 v) :: byte))
      OR push_bit 32 (ucast (ucast (drop_bit 32 v) :: byte))
      OR push_bit 40 (ucast (ucast (drop_bit 40 v) :: byte))
      OR push_bit 48 (ucast (ucast (drop_bit 48 v) :: byte))
      OR push_bit 56 (ucast (ucast (drop_bit 56 v) :: byte)) = v"
  proof (rule bit_word_eqI)
    fix n :: nat
    assume "n < LENGTH(64)"
    then have "n < 64" by simp
    then consider "n < 8" | "8 \<le> n" "n < 16" | "16 \<le> n" "n < 24" | "24 \<le> n" "n < 32"
      | "32 \<le> n" "n < 40" | "40 \<le> n" "n < 48" | "48 \<le> n" "n < 56" | "56 \<le> n" "n < 64"
      by linarith
    then show "bit (ucast (ucast v :: byte) OR push_bit 8 (ucast (ucast (drop_bit 8 v) :: byte))
      OR push_bit 16 (ucast (ucast (drop_bit 16 v) :: byte))
      OR push_bit 24 (ucast (ucast (drop_bit 24 v) :: byte))
      OR push_bit 32 (ucast (ucast (drop_bit 32 v) :: byte))
      OR push_bit 40 (ucast (ucast (drop_bit 40 v) :: byte))
      OR push_bit 48 (ucast (ucast (drop_bit 48 v) :: byte))
      OR push_bit 56 (ucast (ucast (drop_bit 56 v) :: byte)) :: uint64) n = bit v n"
      by cases (auto simp add: bit_simps cong: conj_cong)
  qed
  then show ?thesis
    by (simp add: Uint64_def PutUint64_def)
qed

lemma PutUint64_inj: "PutUint64 a = PutUint64 b \<longleftrightarrow> a = b"
  by (metis Uint64_PutUint64 option.inject)

lemma length_PutUint64: "length (PutUint64 v) = 8"
  by (simp add: PutUint64_def)

lemma DB_Put_cases:
  "DB_Put d k v = (err, d') \<Longrightarrow>
     (err = None \<and> kv d' = insert_kv k v (kv d)) \<or> (err \<noteq> None \<and> kv d' = kv d)"
  by (auto simp: DB_Put_def next_fault_def split: list.splits option.splits)

lemma DB_Delete_cases:
  "DB_Delete d k = (err, d') \<Longrightarrow>
     (err = None \<and> kv d' = delete_kv k (kv d)) \<or> (err \<noteq> None \<and> kv d' = kv d)"
  by (auto simp: DB_Delete_def next_fault_def split: list.splits option.splits)

lemma DB_Get_cases:
  "DB_Get d k = ((v, err), d') \<Longrightarrow>
     kv d' = kv d \<and> (err = None \<longrightarrow> map_of (kv d) k = Some v)"
  by (auto simp: DB_Get_def next_fault_def split: list.splits option.splits)

lemma peek_cases:
  "peek q = ((item, err), q') \<Longrightarrow>
     q' = q\<lparr>db := db q'\<rparr> \<and> kv (db q') = kv (db q) \<and>
     (err = None \<longrightarrow> length_q q \<noteq> 0 \<and>
        map_of (kv (db q)) (PutUint64 (head q + 1)) = Some (Value item) \<and>
        item = \<lparr>Key = PutUint64 (head q + 1), Value = Value item, Size = of_nat (length (Value item))\<rparr>)"
  apply (simp add: peek_def Let_def split: if_splits prod.splits)
  apply (auto dest!: DB_Get_cases)
  done

lemma Dequeue_ok:
  assumes "Dequeue q = ((item, None), q')"
  shows "head q' = head q + 1 \<and> tail q' = tail q \<and> length_q q \<noteq> 0 \<and>
     kv (db q') = delete_kv (PutUint64 (head q + 1)) (kv (db q)) \<and>
     map_of (kv (db q)) (PutUint64 (head q + 1)) = Some (Value item) \<and>
     item = \<lparr>Key = PutUint64 (head q + 1), Value = Value item, Size = of_nat (length (Value item))\<rparr>"
proof -
  obtain it e q1 where p: "peek q = ((it, e), q1)"
    by (metis surj_pair)
  from assms p have e: "e = None" and it: "it = item"
    by (auto simp: Dequeue_def Let_def split: prod.splits if_splits)
  note P = peek_cases [OF p]
  obtain e' d where dl: "DB_Delete (db q1) (Key item) = (e', d)"
    by (metis surj_pair)
  from assms p dl e it have e': "e' = None" and q': "q' = q1\<lparr>db := d, head := head q1 + 1\<rparr>"
    by (auto simp: Dequeue_def Let_def split: if_splits)
  from DB_Delete_cases [OF dl] e' have d: "kv d = delete_kv (Key item) (kv (db q1))"
    by simp
  from P e it have k: "Key item = PutUint64 (head q + 1)"
    by (metis Item.select_convs(1))
  have h: "head q1 = head q" "tail q1 = tail q"
    using P by (metis Queue.select_convs(4) Queue.surjective Queue.update_convs(6),
        metis Queue.select_convs(5) Queue.surjective Queue.update_convs(6))
  show ?thesis
    using P e it q' d k h by simp
qed

lemma Prepend_ok:
  "Prepend item q = (None, q') \<Longrightarrow>
     head q \<noteq> 0 \<and> head q' = head q - 1 \<and> tail q' = tail q \<and>
     kv (db q') = insert_kv (PutUint64 (head q)) (Value item) (kv (db q))"
  by (auto simp: Prepend_def Let_def split: if_splits prod.splits dest!: DB_Put_cases)

lemma Enqueue_ok:
  "Enqueue v q = (None, q') \<Longrightarrow>
     head q' = head q \<and> tail q' = tail q + 1 \<and>
     kv (db q') = insert_kv (PutUint64 (tail q + 1)) v (kv (db q))"
  by (auto simp: Enqueue_def Let_def split: if_splits prod.splits dest!: DB_Put_cases)

subsection \<open>The entries of the store\<close>

lemma keys_insert_kv: "fst ` set (insert_kv k v r) = insert k (fst ` set r)"
  by (induction k v r rule: insert_kv.induct) auto

lemma sorted_insert_kv:
  "sorted_wrt (<) (map fst r) \<Longrightarrow> sorted_wrt (<) (map fst (insert_kv k v r))"
proof (induction r)
  case Nil
  then show ?case by simp
next
  case (Cons e r)
  obtain k' v' where e: "e = (k', v')"
    by (cases e)
  from Cons.prems e have r: "sorted_wrt (<) (map fst r)" and g: "\<forall>x \<in> set (map fst r). k' < x"
    by simp_all
  consider "k < k'" | "k = k'" | "k' < k"
    by (rule linorder_cases)
  then show ?case
  proof cases
    case 1
    with g have "\<forall>x \<in> set (map fst r). k < x"
      by (auto intro: less_trans)
    with 1 e r g show ?thesis by simp
  next
    case 2
    with e r g show ?thesis by simp
  next
    case 3
    then have "\<not> k < k'" "k \<noteq> k'"
      by auto
    moreover have "\<forall>x \<in> set (map fst (insert_kv k v r)). k' < x"
      using g 3 by (simp add: keys_insert_kv)
    ultimately show ?thesis
      using e Cons.IH [OF r] by simp
  qed
qed

lemma length_insert_kv: "k \<notin> fst ` set r \<Longrightarrow> length (insert_kv k v r) = Suc (length r)"
  by (induction r) auto

lemma keys_delete_kv: "fst ` set (delete_kv k r) = fst ` set r - {k}"
  by (auto simp: delete_kv_def)

lemma sorted_delete_kv:
  "sorted_wrt (<) (map fst r) \<Longrightarrow> sorted_wrt (<) (map fst (delete_kv k r))"
  by (simp add: delete_kv_def sorted_wrt_map sorted_wrt_filter)

lemma length_delete_kv:
  "sorted_wrt (<) (map fst r) \<Longrightarrow> k \<in> fst ` set r \<Longrightarrow> Suc (length (delete_kv k r)) = length r"
proof (induction r)
  case Nil
  then show ?case by simp
next
  case (Cons e r)
  show ?case
  proof (cases "fst e = k")
    case True
    with Cons.prems have "\<forall>e' \<in> set r. fst e' \<noteq> k"
      by auto
    then have "filter (\<lambda>e. fst e \<noteq> k) r = r"
      by (simp add: filter_id_conv)
    with True show ?thesis
      by (simp add: delete_kv_def)
  next
    case False
    with Cons show ?thesis
      by (auto simp: delete_kv_def)
  qed
qed

lemma unat_succ: "n \<noteq> - 1 \<Longrightarrow> unat (n + 1) = Suc (unat n)" for n :: "'a::len word"
  by (simp add: add.commute add_eq_0_iff unatSuc)

lemma less_succ_word: "x < n + 1 \<longleftrightarrow> x = n \<or> x < n" if "n \<noteq> - 1" for x n :: "'a::len word"
  using that unat_succ [of n] by (auto simp: word_less_nat_alt word_unat_eq_iff)

lemma pred_less_pred_word: "x - 1 < n - 1 \<longleftrightarrow> x \<noteq> 0 \<and> x < n" if "n \<noteq> 0" for x n :: "'a::len word"
proof (cases "x = 0")
  case True
  then show ?thesis by simp
next
  case False
  then have "unat x \<noteq> 0" "unat n \<noteq> 0"
    using that by (simp_all add: unat_eq_zero)
  then show ?thesis
    using that False by (simp add: word_less_nat_alt unat_minus_one) arith
qed

lemma less_succ_pred_word: "y < n + 1 \<longleftrightarrow> y = 0 \<or> y - 1 < n" if "n \<noteq> - 1" for y n :: "'a::len word"
proof (cases "y = 0")
  case True
  then show ?thesis
    using that by (simp add: eq_neg_iff_add_eq_0 word_greater_zero_iff)
next
  case False
  then show ?thesis
    using that by (metis add_neg_numeral_special(8) add_right_cancel diff_add_cancel
    inc_less_eq_iff less_eq_dec_iff)
qed

lemma enqueue_key_range:
  fixes h t k :: "'a::len word"
  assumes "t - h \<noteq> - 1"
  shows "(k - (h + 1) < t + 1 - h) = (k = t + 1 \<or> k - (h + 1) < t - h)"
proof -
  have e1: "t + 1 - h = (t - h) + 1"
    by simp
  have e2: "(k = t + 1) = (k - (h + 1) = t - h)"
    by auto
  show ?thesis
    unfolding e1 e2 by (rule less_succ_word [OF assms])
qed

lemma dequeue_key_range:
  fixes h t k :: "'a::len word"
  assumes "t - h \<noteq> 0"
  shows "(k - (h + 1 + 1) < t - (h + 1)) = (k \<noteq> h + 1 \<and> k - (h + 1) < t - h)"
proof -
  have e1: "k - (h + 1 + 1) = k - (h + 1) - 1"
    by simp
  have e2: "t - (h + 1) = t - h - 1"
    by simp
  have e3: "(k = h + 1) = (k - (h + 1) = 0)"
    by simp
  show ?thesis
    unfolding e1 e2 e3 by (rule pred_less_pred_word [OF assms])
qed

lemma prepend_key_range:
  fixes h t k :: "'a::len word"
  assumes "t - h \<noteq> - 1"
  shows "(k - (h - 1 + 1) < t - (h - 1)) = (k = h \<or> k - (h + 1) < t - h)"
proof -
  have e1: "k - (h - 1 + 1) = k - h"
    by simp
  have e2: "t - (h - 1) = t - h + 1"
    by simp
  have e3: "k - (h + 1) = k - h - 1"
    by simp
  have e4: "(k = h) = (k - h = 0)"
    by simp
  show ?thesis
    unfolding e1 e2 e3 e4 by (rule less_succ_pred_word [OF assms])
qed

lemma keys_after_enqueue:
  assumes "length_q q \<noteq> - 1" and "head q' = head q" and "tail q' = tail q + 1"
  shows "queue_keys q' = insert (tail q + 1) (queue_keys q)"
proof -
  note r = enqueue_key_range [OF assms(1) [unfolded length_q_def]]
  show ?thesis
    unfolding queue_keys_def length_q_def assms(2,3)
    by (intro set_eqI) (simp only: mem_Collect_eq insert_iff r)
qed

lemma keys_after_dequeue:
  assumes "length_q q \<noteq> 0" and "head q' = head q + 1" and "tail q' = tail q"
  shows "queue_keys q' = queue_keys q - {head q + 1}"
proof -
  note r = dequeue_key_range [OF assms(1) [unfolded length_q_def]]
  show ?thesis
    unfolding queue_keys_def length_q_def assms(2,3)
    by (intro set_eqI) (simp only: mem_Collect_eq Diff_iff singleton_iff r, blast)
qed

lemma keys_after_prepend:
  assumes "length_q q \<noteq> - 1" and "head q' = head q - 1" and "tail q' = tail q"
  shows "queue_keys q' = insert (head q) (queue_keys q)"
proof -
  note r = prepend_key_range [OF assms(1) [unfolded length_q_def]]
  show ?thesis
    unfolding queue_keys_def length_q_def assms(2,3)
    by (intro set_eqI) (simp only: mem_Collect_eq insert_iff r)
qed

subsection \<open>The keys of a queue at rest\<close>

lemma unat_of_nat_small: "i < 2 ^ 64 \<Longrightarrow> unat (of_nat i :: uint64) = i"
  by (simp add: unat_of_nat)

lemma unat_lt_64: "unat (w :: uint64) < 2 ^ 64"
  using unsigned_less [of w] by simp

lemma queue_keys_image:
  "queue_keys q = (\<lambda>i. head q + 1 + of_nat i) ` {0..<unat (length_q q)}"
proof (intro set_eqI iffI)
  fix k
  assume "k \<in> queue_keys q"
  then have "unat (k - (head q + 1)) < unat (length_q q)"
    by (simp add: queue_keys_def word_less_nat_alt)
  moreover have "k = head q + 1 + of_nat (unat (k - (head q + 1)))"
    by simp
  ultimately show "k \<in> (\<lambda>i. head q + 1 + of_nat i) ` {0..<unat (length_q q)}"
    by (metis (no_types, lifting) atLeastLessThan_iff image_eqI zero_le)
next
  fix k
  assume "k \<in> (\<lambda>i. head q + 1 + of_nat i) ` {0..<unat (length_q q)}"
  then obtain i where i: "i < unat (length_q q)" and k: "k = head q + 1 + of_nat i"
    by auto
  from i have "i < 2 ^ 64"
    using unat_lt_64 [of "length_q q"] by simp
  then have "unat (of_nat i :: uint64) = i"
    by (rule unat_of_nat_small)
  with i have "(of_nat i :: uint64) < length_q q"
    by (simp add: word_less_nat_alt)
  with k show "k \<in> queue_keys q"
    by (simp add: queue_keys_def)
qed

lemma key_of_index_inj:
  "inj_on (\<lambda>i. PutUint64 (h + 1 + of_nat i)) {0..<unat (m :: uint64)}"
proof (rule inj_onI)
  fix i j
  assume "i \<in> {0..<unat m}" and "j \<in> {0..<unat m}"
    and "PutUint64 (h + 1 + of_nat i) = PutUint64 (h + 1 + of_nat j)"
  then have "i < 2 ^ 64" "j < 2 ^ 64" "(of_nat i :: uint64) = of_nat j"
    using unat_lt_64 [of m] by (simp_all add: PutUint64_inj)
  then show "i = j"
    by (metis unat_of_nat_small)
qed

lemma at_rest_alt:
  "at_rest q \<longleftrightarrow>
     sorted_wrt (<) (map fst (kv (db q))) \<and>
     fst ` set (kv (db q)) = PutUint64 ` queue_keys q \<and>
     length (kv (db q)) = unat (length_q q)"
proof -
  let ?L = "map (\<lambda>i. PutUint64 (head q + 1 + of_nat i)) [0..<unat (length_q q)]"
  have d: "distinct ?L"
    using key_of_index_inj [of "head q" "length_q q"] by (simp add: distinct_map)
  have s: "set ?L = PutUint64 ` queue_keys q"
    by (simp add: queue_keys_image image_image)
  have srt: "sorted_wrt (<) (sort ?L)"
    using d by (simp add: strict_sorted_iff)
  show ?thesis
  proof
    assume "at_rest q"
    then have e: "map fst (kv (db q)) = sort ?L"
      by (simp add: at_rest_def)
    have "length (map fst (kv (db q))) = length (sort ?L)"
      by (simp only: e)
    then have "length (kv (db q)) = unat (length_q q)"
      by simp
    moreover have "set (map fst (kv (db q))) = set (sort ?L)"
      by (simp only: e)
    then have "fst ` set (kv (db q)) = PutUint64 ` queue_keys q"
      using s by simp
    ultimately show "sorted_wrt (<) (map fst (kv (db q))) \<and>
        fst ` set (kv (db q)) = PutUint64 ` queue_keys q \<and> length (kv (db q)) = unat (length_q q)"
      using e srt by simp
  next
    assume a: "sorted_wrt (<) (map fst (kv (db q))) \<and>
        fst ` set (kv (db q)) = PutUint64 ` queue_keys q \<and> length (kv (db q)) = unat (length_q q)"
    then have "sorted (map fst (kv (db q)))" "distinct (map fst (kv (db q)))"
      "set (map fst (kv (db q))) = set (sort ?L)"
      using s by (simp_all add: strict_sorted_iff)
    moreover have "sorted (sort ?L)" "distinct (sort ?L)"
      using d by simp_all
    ultimately have "map fst (kv (db q)) = sort ?L"
      by (intro sorted_distinct_set_unique)
    then show "at_rest q"
      by (simp add: at_rest_def)
  qed
qed

subsection \<open>Opening a queue\<close>

lemma next_fault_kv: "next_fault d = (e, d') \<Longrightarrow> kv d' = kv d"
  by (auto simp: next_fault_def split: list.splits)

lemma move_cases:
  assumes "move pick it = (ok, it')"
  shows "kv (src it') = kv (src it) \<and>
         (ok \<longrightarrow> iter_err it' = iter_err it \<and> iter_err it = None \<and> cur it' = pick (kv (src it)) \<and> cur it' \<noteq> None) \<and>
         (\<not> ok \<longrightarrow> iter_err it' = None \<longrightarrow> iter_err it = None \<and> pick (kv (src it)) = None)"
proof (cases "iter_err it = None")
  case False
  with assms show ?thesis
    by (auto simp: move_def)
next
  case True
  obtain e d where n: "next_fault (src it) = (e, d)"
    by (metis surj_pair)
  from next_fault_kv [OF n] assms True n show ?thesis
    by (auto simp: move_def split: option.splits)
qed

lemma initialize_ok:
  assumes "initialize q = Some (None, q')"
  shows "kv (db q') = kv (db q) \<and>
         (kv (db q) = [] \<longrightarrow> head q' = head q \<and> tail q' = tail q) \<and>
         (kv (db q) \<noteq> [] \<longrightarrow>
            Uint64 (fst (hd (kv (db q)))) = Some (head q' + 1) \<and>
            Uint64 (fst (last (kv (db q)))) = Some (tail q'))"
proof -
  obtain ok1 it1 where f: "First (NewIterator (db q)) = (ok1, it1)"
    by (metis surj_pair)
  obtain ok2 it2 where l: "Last it1 = (ok2, it2)"
    by (metis surj_pair)
  note F = move_cases [OF f [unfolded First_def]] and L = move_cases [OF l [unfolded Last_def]]
  from assms f l have e: "iter_err it2 = None"
    by (auto simp: initialize_def Let_def split: option.splits if_splits)
  have s: "kv (src it1) = kv (db q)" "kv (src it2) = kv (db q)"
    using F L by (simp_all add: NewIterator_def)
  show ?thesis
  proof (cases "kv (db q)")
    case Nil
    with F L s have "\<not> ok1" "\<not> ok2"
      by (auto simp: NewIterator_def)
    with assms f l Nil s show ?thesis
      by (auto simp: initialize_def Let_def Release_def split: option.splits)
  next
    case (Cons a r)
    with F L s e have ok: "ok1" "ok2"
      by (auto simp: NewIterator_def split: list.splits)
    with F L s Cons have c: "Key_it it1 = fst (hd (kv (db q)))" "Key_it it2 = fst (last (kv (db q)))"
      by (auto simp: NewIterator_def Key_it_def split: list.splits)
    from assms f l ok c Cons show ?thesis
      by (auto simp: initialize_def Let_def Release_def s split: option.splits)
  qed
qed

lemma Open_ok:
  assumes "Open name dataDir fs = Some (q, None)"
  shows "kv (db q) = kv (fs (dataDir @ ''/'' @ name)) \<and>
         (kv (db q) = [] \<longrightarrow> head q = 0 \<and> tail q = 0) \<and>
         (kv (db q) \<noteq> [] \<longrightarrow>
            Uint64 (fst (hd (kv (db q)))) = Some (head q + 1) \<and>
            Uint64 (fst (last (kv (db q)))) = Some (tail q))"
proof -
  let ?q0 = "\<lparr>Queue.Name = name, DataDir = dataDir, Stats = \<lparr>OpenTransactions = 0\<rparr>,
                head = 0, tail = 0, db = nil_DB, isOpened = False\<rparr>"
  from assms have o: "open_q fs ?q0 = Some (None, q)"
    by (auto simp: Open_def Let_def)
  obtain d e where f: "OpenFile fs (Path ?q0) = (d, e)"
    by (metis surj_pair)
  from o f have e: "e = None" and i: "initialize (?q0\<lparr>db := d, isOpened := True\<rparr>) = Some (None, q)"
    by (auto simp: open_q_def Let_def split: if_splits)
  from f e have d: "kv d = kv (fs (dataDir @ ''/'' @ name))"
    by (auto simp: OpenFile_def Path_def split: prod.splits option.splits dest: next_fault_kv)
  from initialize_ok [OF i] d show ?thesis
    by auto
qed

subsection \<open>The order of the encoded keys\<close>

lemma be_val_bound: "be_val xs < 256 ^ length xs"
proof (induction xs)
  case Nil
  then show ?case by simp
next
  case (Cons x xs)
  have "unat x < 256"
    using unsigned_less [of x] by simp
  then have "Suc (unat x) \<le> 256"
    by simp
  then have b: "Suc (unat x) * 256 ^ length xs \<le> 256 * 256 ^ length xs"
    by (rule mult_le_mono1)
  have a: "unat x * 256 ^ length xs + be_val xs < Suc (unat x) * 256 ^ length xs"
    using Cons by simp
  from less_le_trans [OF a b] show ?case
    by (simp only: be_val.simps length_Cons power_Suc)
qed

lemma digits_less:
  fixes a b p r s :: nat
  assumes "r < p" and "s < p"
  shows "a * p + r < b * p + s \<longleftrightarrow> a < b \<or> (a = b \<and> r < s)"
proof -
  consider "a < b" | "a = b" | "b < a"
    by (rule linorder_cases)
  then show ?thesis
  proof cases
    case 1
    then have "Suc a * p \<le> b * p"
      by (intro mult_le_mono1) simp
    with assms 1 show ?thesis
      by simp
  next
    case 2
    then show ?thesis by simp
  next
    case 3
    then have "Suc b * p \<le> a * p"
      by (intro mult_le_mono1) simp
    with assms 3 show ?thesis
      by simp
  qed
qed

lemma lex_be_val:
  "length xs = length ys \<Longrightarrow> xs < ys \<longleftrightarrow> be_val xs < be_val ys"
proof (induction xs ys rule: list_induct2)
  case Nil
  then show ?case by simp
next
  case (Cons x xs y ys)
  have "(x # xs < y # ys) = (x < y \<or> (x = y \<and> xs < ys))"
    by auto
  also have "\<dots> = (unat x < unat y \<or> (unat x = unat y \<and> be_val xs < be_val ys))"
    using Cons.IH by (simp add: word_less_nat_alt word_unat_eq_iff)
  also have "\<dots> = (be_val (x # xs) < be_val (y # ys))"
  proof -
    have "be_val ys < 256 ^ length xs"
      using be_val_bound [of ys] Cons.hyps by simp
    from digits_less [OF be_val_bound [of xs] this, of "unat x" "unat y"] Cons.hyps
    show ?thesis by simp
  qed
  finally show ?case .
qed

lemma unat_byte: "unat (ucast (drop_bit k (v :: uint64)) :: byte) = take_bit 8 (drop_bit k (unat v))"
  by (simp add: unat_drop_bit_eq unsigned_ucast_eq unsigned_take_bit_eq)

lemma byte_step:
  fixes n :: nat
  shows "take_bit 8 (drop_bit k n) + 256 * drop_bit (k + 8) n = drop_bit k n"
proof -
  have "push_bit 8 (drop_bit 8 (drop_bit k n)) + take_bit 8 (drop_bit k n) = drop_bit k n"
    by (rule bits_ident)
  then show ?thesis
    by (simp add: push_bit_eq_mult add.commute)
qed

lemma be_val_PutUint64: "be_val (PutUint64 v) = unat v"
proof -
  define n where "n = unat v"
  define m where "m k = take_bit 8 (drop_bit k n)" for k
  define d where "d k = drop_bit k n" for k
  have s: "m k + 256 * d (k + 8) = d k" for k
    unfolding m_def d_def by (rule byte_step)
  have "n < 2 ^ 64"
    unfolding n_def using unsigned_less [of v] by simp
  then have d64: "d 64 = 0"
    unfolding d_def by (simp add: drop_bit_eq_div)
  have d0: "d 0 = n"
    unfolding d_def by simp
  have "be_val (PutUint64 v) =
      m 56 * 256 ^ 7 + (m 48 * 256 ^ 6 + (m 40 * 256 ^ 5 + (m 32 * 256 ^ 4 +
      (m 24 * 256 ^ 3 + (m 16 * 256 ^ 2 + (m 8 * 256 + m 0))))))"
    using unat_byte [of 0 v]
    by (simp add: PutUint64_def unat_byte m_def n_def)
  also have "\<dots> = n"
    using s [of 0] s [of 8] s [of 16] s [of 24] s [of 32] s [of 40] s [of 48] s [of 56] d64 d0
    by simp
  finally show ?thesis
    by (simp add: n_def)
qed

lemma PutUint64_less: "PutUint64 a < PutUint64 b \<longleftrightarrow> a < b"
  using lex_be_val [of "PutUint64 a" "PutUint64 b"]
  by (simp add: length_PutUint64 be_val_PutUint64 word_less_nat_alt)

lemma PutUint64_le: "PutUint64 a \<le> PutUint64 b \<longleftrightarrow> a \<le> b"
  by (metis PutUint64_less linorder_not_less)

lemma sorted_hd_Min: "sorted_wrt (<) xs \<Longrightarrow> xs \<noteq> [] \<Longrightarrow> hd xs = Min (set xs)" for xs :: "'a::linorder list"
  by (cases xs) (auto intro!: Min_eqI [symmetric] simp: less_imp_le)

lemma sorted_last_Max: "sorted_wrt (<) xs \<Longrightarrow> xs \<noteq> [] \<Longrightarrow> last xs = Max (set xs)" for xs :: "'a::linorder list"
proof (induction xs)
  case Nil
  then show ?case by simp
next
  case (Cons x xs)
  show ?case
  proof (cases "xs = []")
    case True
    then show ?thesis by simp
  next
    case False
    with Cons.prems have "\<exists>a \<in> set xs. x \<le> a"
      by (cases xs) (auto simp: less_imp_le)
    then have "x \<le> Max (set xs)"
      using False by (simp add: Max_ge_iff)
    with Cons False show ?thesis
      by (simp add: max_absorb2)
  qed
qed

lemma plain_range:
  fixes h t k :: uint64
  assumes "h \<le> t"
  shows "(k - (h + 1) < t - h) = (h < k \<and> k \<le> t)"
proof (cases "h = - 1")
  case True
  with assms have "t = - 1"
    by (simp add: word_order.extremum_unique)
  with True show ?thesis
    by (simp add: word_order.not_eq_extremum)
next
  case False
  have b: "unat h < 2 ^ 64" "unat t < 2 ^ 64" "unat k < 2 ^ 64"
    using unsigned_less [of h] unsigned_less [of t] unsigned_less [of k] by simp_all
  from assms have th: "unat (t - h) = unat t - unat h" "unat h \<le> unat t"
    by (simp_all add: unat_sub word_le_nat_alt)
  have s: "unat (h + 1) = Suc (unat h)"
    using False by (rule unat_succ)
  show ?thesis
    using b th s
    by (simp add: word_less_nat_alt word_le_nat_alt unat_sub_if' s) arith
qed

lemma queue_keys_plain:
  assumes "head q \<le> tail q"
  shows "queue_keys q = {k. head q < k \<and> k \<le> tail q}"
  using plain_range [OF assms] by (simp add: queue_keys_def length_q_def)

section \<open>Counters move only with the store\<close>

text \<open>
  C3. Enqueue adds one to \<open>tail\<close> exactly when the store write succeeded, and the error it
  returns is the one of the store write. Dequeue adds one to \<open>head\<close> exactly when the item
  was read and the store delete succeeded, which is when it returns no error. In every
  other case both counters are as they were.
\<close>

theorem counters_follow_store:
  "(Enqueue val q = (err, q') \<longrightarrow>
      err = fst (DB_Put (db q) (PutUint64 (tail q + 1)) val) \<and>
      (tail q' = tail q + 1 \<longleftrightarrow> err = None) \<and>
      (err \<noteq> None \<longrightarrow> tail q' = tail q) \<and> head q' = head q) \<and>
   (Dequeue q = ((item, derr), q'') \<longrightarrow>
      (head q'' = head q + 1 \<longleftrightarrow>
         snd (fst (peek q)) = None \<and>
         fst (DB_Delete (db (snd (peek q))) (Key (fst (fst (peek q))))) = None) \<and>
      (head q'' = head q + 1 \<longleftrightarrow> derr = None) \<and>
      (derr \<noteq> None \<longrightarrow> head q'' = head q) \<and> tail q'' = tail q)"
proof -
  have pk: "head (snd (peek q)) = head q \<and> tail (snd (peek q)) = tail q"
    by (simp add: peek_def Let_def split: prod.splits)
  have e: "Enqueue val q = (err, q') \<Longrightarrow>
      err = fst (DB_Put (db q) (PutUint64 (tail q + 1)) val) \<and>
      (tail q' = tail q + 1 \<longleftrightarrow> err = None) \<and>
      (err \<noteq> None \<longrightarrow> tail q' = tail q) \<and> head q' = head q"
    by (auto simp: Enqueue_def Let_def split: prod.splits if_splits)
  have d: "Dequeue q = ((item, derr), q'') \<Longrightarrow>
      (head q'' = head q + 1 \<longleftrightarrow>
         snd (fst (peek q)) = None \<and>
         fst (DB_Delete (db (snd (peek q))) (Key (fst (fst (peek q))))) = None) \<and>
      (head q'' = head q + 1 \<longleftrightarrow> derr = None) \<and>
      (derr \<noteq> None \<longrightarrow> head q'' = head q) \<and> tail q'' = tail q"
    using pk by (auto simp: Dequeue_def Let_def split: prod.splits if_splits)
  from e d show ?thesis by blast
qed

lemma Enqueue_one_queue: "Enqueue [8] one_queue = (None, two_queue)"
  by (simp add: Enqueue_def one_queue_def two_queue_def fresh_queue_def DB_Put_def next_fault_def
      PutUint64_def Let_def)

lemma Dequeue_one_queue:
  "Dequeue one_queue = ((first_item, None), dequeued_queue)"
  by (simp add: Dequeue_def peek_def length_q_def one_queue_def dequeued_queue_def
      fresh_queue_def fresh_db_def first_item_def DB_Get_def DB_Delete_def delete_kv_def
      next_fault_def PutUint64_def Let_def)

theorem counters_follow_store_witness:
  "Enqueue [8] one_queue = (None, two_queue) \<and> tail two_queue = tail one_queue + 1 \<and>
   Dequeue one_queue = ((first_item, None), dequeued_queue) \<and>
   head dequeued_queue = head one_queue + 1"
  using counters_follow_store [of "[8]" one_queue None two_queue first_item None dequeued_queue]
    Enqueue_one_queue Dequeue_one_queue
  by blast

section \<open>Prepend\<close>

text \<open>
  C6, as the claim states it, fails: Prepend also returns an error when the store write
  fails, with \<open>head\<close> not 0.
\<close>

theorem Prepend_store_error_counterexample:
  "fst (Prepend first_item failing_queue) = Some (ErrIO ''disk full'') \<and> head failing_queue \<noteq> 0"
  by (simp add: Prepend_def failing_queue_def dequeued_queue_def one_queue_def fresh_queue_def
      DB_Put_def next_fault_def Let_def)

text \<open>
  C6, amended. When \<open>head\<close> is 0, Prepend returns its own error and the queue is as it
  was. When \<open>head\<close> is at least 1, Prepend returns what the store write returns: if the
  write succeeded, the value of the item is stored under the key \<open>head\<close> and \<open>head\<close> is one
  less; if it failed, \<open>head\<close>, \<open>tail\<close> and the entries are as they were. So after a Dequeue
  that returned \<open>x\<close>, a Prepend of \<open>x\<close> that succeeds makes the next Peek that succeeds return
  \<open>x\<close>.
\<close>

theorem Prepend_head_guard:
  "(head q0 = 0 \<longrightarrow> Prepend item0 q0 = (Some (New ''Queue head can not be less then zero''), q0)) \<and>
   (head q \<noteq> 0 \<longrightarrow> Prepend item q = (err, q') \<longrightarrow>
      err = fst (DB_Put (db q) (PutUint64 (head q)) (Value item)) \<and> tail q' = tail q \<and>
      (err = None \<longrightarrow> head q' = head q - 1 \<and>
         kv (db q') = insert_kv (PutUint64 (head q)) (Value item) (kv (db q)) \<and>
         map_of (kv (db q')) (PutUint64 (head q)) = Some (Value item)) \<and>
      (err \<noteq> None \<longrightarrow> head q' = head q \<and> kv (db q') = kv (db q))) \<and>
   (Dequeue p = ((x, None), p1) \<longrightarrow> Prepend x p1 = (None, p2) \<longrightarrow> Peek p2 = ((y, None), p3) \<longrightarrow>
      y = x \<and> head p2 = head p \<and> tail p2 = tail p)"
proof -
  have a: "head q0 = 0 \<Longrightarrow> Prepend item0 q0 = (Some (New ''Queue head can not be less then zero''), q0)"
    by (simp add: Prepend_def)
  have b: "head q \<noteq> 0 \<Longrightarrow> Prepend item q = (err, q') \<Longrightarrow>
      err = fst (DB_Put (db q) (PutUint64 (head q)) (Value item)) \<and> tail q' = tail q \<and>
      (err = None \<longrightarrow> head q' = head q - 1 \<and>
         kv (db q') = insert_kv (PutUint64 (head q)) (Value item) (kv (db q)) \<and>
         map_of (kv (db q')) (PutUint64 (head q)) = Some (Value item)) \<and>
      (err \<noteq> None \<longrightarrow> head q' = head q \<and> kv (db q') = kv (db q))"
    by (auto simp: Prepend_def Let_def map_of_insert_kv split: if_splits prod.splits
        dest!: DB_Put_cases)
  have c: "y = x \<and> head p2 = head p \<and> tail p2 = tail p"
    if d: "Dequeue p = ((x, None), p1)" and p: "Prepend x p1 = (None, p2)"
      and k: "Peek p2 = ((y, None), p3)"
  proof -
    note D = Dequeue_ok [OF d] and P = Prepend_ok [OF p] and K = peek_cases [OF k [unfolded Peek_def]]
    have h: "head p2 = head p" "tail p2 = tail p"
      using D P by simp_all
    have "map_of (kv (db p2)) (PutUint64 (head p + 1)) = Some (Value x)"
      using D P by (simp add: map_of_insert_kv)
    with K h have "Value y = Value x" by simp
    with K D h show ?thesis by metis
  qed
  from a b c show ?thesis by blast
qed

lemma Prepend_dequeued_queue: "Prepend first_item dequeued_queue = (None, one_queue)"
  by (simp add: Prepend_def dequeued_queue_def one_queue_def fresh_queue_def fresh_db_def
      first_item_def DB_Put_def next_fault_def PutUint64_def Let_def)

lemma Peek_one_queue: "Peek one_queue = ((first_item, None), one_queue)"
  by (simp add: Peek_def peek_def length_q_def one_queue_def fresh_queue_def first_item_def
      DB_Get_def next_fault_def PutUint64_def Let_def)

theorem Prepend_head_guard_witness:
  "head fresh_queue = 0 \<and>
   Prepend first_item fresh_queue = (Some (New ''Queue head can not be less then zero''), fresh_queue) \<and>
   head dequeued_queue \<noteq> 0 \<and> Prepend first_item dequeued_queue = (None, one_queue) \<and>
   head one_queue = head dequeued_queue - 1 \<and>
   Dequeue one_queue = ((first_item, None), dequeued_queue) \<and>
   Peek one_queue = ((first_item, None), one_queue)"
proof -
  have h: "head fresh_queue = 0" "head dequeued_queue \<noteq> 0"
    by (simp_all add: fresh_queue_def dequeued_queue_def one_queue_def)
  note t = Prepend_head_guard [of fresh_queue first_item dequeued_queue first_item None one_queue
      one_queue first_item dequeued_queue one_queue first_item one_queue]
  from t h Prepend_dequeued_queue Dequeue_one_queue Peek_one_queue show ?thesis
    by blast
qed

section \<open>The reservation of a session\<close>

lemma holding_session_holds:
  "currentItem holding_session = Some first_item \<and> openTx ''a'' holding_session = Some 1 \<and>
   openTx ''b'' holding_session = Some 0"
  by (simp add: holding_session_def eval_defs)

lemma GetQueue_holding_a:
  "GetQueue ''a'' (repo holding_session) =
     Some (Inr (queue_a\<lparr>head := 1, db := fresh_db, Queue.Stats := \<lparr>OpenTransactions = 1\<rparr>\<rparr>),
           repo holding_session)"
  by (simp add: holding_session_def eval_defs)

lemma GetQueue_holding_b:
  "GetQueue ''b'' (repo holding_session) = Some (Inr queue_b, repo holding_session)"
  by (simp add: holding_session_def eval_defs)

lemma GetQueue_bad_name:
  "GetQueue ''bad-name'' (repo holding_session) =
     Some (Inl (New ''Queue name is not alphanumeric''), repo holding_session)"
  by (simp add: holding_session_def eval_defs Open_def open_q_def name_char_def)

lemma short_key_session_holds: "currentItem short_key_session = Some first_item"
  using holding_session_holds by (simp add: short_key_session_def)

lemma GetQueue_short_key: "GetQueue ''c'' (repo short_key_session) = None"
  by (simp add: short_key_session_def holding_session_def eval_defs Open_def open_q_def
      name_char_def OpenFile_def initialize_def NewIterator_def First_def Last_def move_def
      Key_it_def Path_def Uint64_def)

text \<open>
  C4. A session that holds an item answers a GET with no sub-command, or with the
  sub-command \<open>open\<close>, for any queue name, with the error
  \<^verbatim>\<open>CLIENT_ERROR Close current item first\<close>, and the whole session is as it was: the
  reservation, the repository with every queue, and what has been written.
\<close>

theorem get_while_holding:
  assumes "currentItem c \<noteq> None"
    and "parseGetCommand input = Some cmd"
    and "SubCommand cmd = [] \<or> SubCommand cmd = ''open''"
  shows "Get input c = Some (Some (New ''CLIENT_ERROR Close current item first''), c)"
  using assms by (auto simp: Get_def get_def)

theorem get_while_holding_witness:
  "currentItem holding_session \<noteq> None \<and>
   parseGetCommand [''get'', ''b/open''] = Some \<lparr>Name = ''get'', QueueName = ''b'', SubCommand = ''open''\<rparr> \<and>
   Get [''get'', ''b/open''] holding_session =
     Some (Some (New ''CLIENT_ERROR Close current item first''), holding_session)"
proof -
  have h: "currentItem holding_session \<noteq> None"
    using holding_session_holds by simp
  have p: "parseGetCommand [''get'', ''b/open''] =
      Some \<lparr>Name = ''get'', QueueName = ''b'', SubCommand = ''open''\<rparr>"
    by (simp add: HasPrefix_def SplitN2_def Trim_def)
  from get_while_holding [OF h p] h p show ?thesis
    by simp
qed

text \<open>
  C5, as the claim states it, fails: the handlers do not compare the queue name of the
  command with the queue the item came from. A session that holds the item of \<open>a\<close> and
  sends \<^verbatim>\<open>get b/close\<close> becomes idle, and it is the open transactions of \<open>b\<close> that go down,
  to -1, while those of \<open>a\<close> stay at 1.
\<close>

theorem close_other_queue_counterexample:
  "Get [''get'', ''a/open''] idle_session = Some (None, holding_session) \<and>
   currentItem holding_session = Some first_item \<and>
   openTx ''a'' holding_session = Some 1 \<and> openTx ''b'' holding_session = Some 0 \<and>
   map_option fst (Get [''get'', ''b/close''] holding_session) = Some None \<and>
   currentItem (session_after [''get'', ''b/close''] holding_session) = None \<and>
   openTx ''a'' (session_after [''get'', ''b/close''] holding_session) = Some 1 \<and>
   openTx ''b'' (session_after [''get'', ''b/close''] holding_session) = Some (- 1)"
  by (simp add: holding_session_def eval_defs)

text \<open>
  C5, amended. For a session that holds an item, \<^verbatim>\<open>close\<close> and \<^verbatim>\<open>abort\<close> act on the queue
  that the command names, whichever queue the item came from; what they do depends only on
  what \<open>GetQueue\<close> answers for that name. When it returns a queue \<open>n\<close>: \<^verbatim>\<open>GET n/close\<close> takes
  one from the open transactions of \<open>n\<close> and makes the session idle; \<^verbatim>\<open>GET n/abort\<close> prepends
  the item to \<open>n\<close>, and when Prepend succeeds it takes one from the open transactions of \<open>n\<close>
  and makes the session idle, when Prepend fails it returns a \<^verbatim>\<open>SERVER_ERROR\<close> and the session
  keeps the item. When \<open>GetQueue\<close> returns an error (a name that is not alphanumeric or too
  long, a store that cannot be opened), both commands return a \<^verbatim>\<open>SERVER_ERROR\<close> with that
  error, and the session keeps the item and no queue changes. When opening the queue
  panics, so does the command. No other queue changes in any case.
\<close>

theorem close_and_abort_on_named_queue:
  assumes "currentItem c = Some it"
    and "parseGetCommand input = Some cmd"
    and "SubCommand cmd = ''close'' \<or> SubCommand cmd = ''abort''"
  shows "(GetQueue (QueueName cmd) (repo c) = Some (Inr q, r) \<longrightarrow>
            (SubCommand cmd = ''close'' \<longrightarrow>
               Get input c = Some (None, Fprint (''END'' @ CRLF) (setCurrentState None None
                 (c\<lparr>repo := put_queue (QueueName cmd) (AddOpenTransactions (- 1) q) r\<rparr>)))) \<and>
            (SubCommand cmd = ''abort'' \<longrightarrow> Prepend it q = (None, q1) \<longrightarrow>
               Get input c = Some (None, Fprint (''END'' @ CRLF) (setCurrentState None None
                 (c\<lparr>repo := put_queue (QueueName cmd) (AddOpenTransactions (- 1) q1) r\<rparr>)))) \<and>
            (SubCommand cmd = ''abort'' \<longrightarrow> Prepend it q = (Some e, q1) \<longrightarrow>
               Get input c = Some (Some (New (''SERVER_ERROR '' @ Error e)),
                 c\<lparr>repo := put_queue (QueueName cmd) q1 r\<rparr>))) \<and>
         (GetQueue (QueueName cmd) (repo c) = Some (Inl err, r) \<longrightarrow>
            Get input c = Some (Some (New (''SERVER_ERROR '' @ Error err)), c\<lparr>repo := r\<rparr>)) \<and>
         (GetQueue (QueueName cmd) (repo c) = None \<longrightarrow> Get input c = None)"
  using assms
  by (auto simp: Get_def getClose_def getAbort_def abort_def Let_def put_queue_def
      setCurrentState_def)


theorem close_and_abort_on_named_queue_witness:
  "currentItem holding_session = Some first_item \<and>
   currentItem short_key_session = Some first_item \<and>
   parseGetCommand [''get'', ''a/close''] = Some \<lparr>Name = ''get'', QueueName = ''a'', SubCommand = ''close''\<rparr> \<and>
   parseGetCommand [''get'', ''a/abort''] = Some \<lparr>Name = ''get'', QueueName = ''a'', SubCommand = ''abort''\<rparr> \<and>
   parseGetCommand [''get'', ''b/abort''] = Some \<lparr>Name = ''get'', QueueName = ''b'', SubCommand = ''abort''\<rparr> \<and>
   parseGetCommand [''get'', ''bad-name/close''] =
     Some \<lparr>Name = ''get'', QueueName = ''bad-name'', SubCommand = ''close''\<rparr> \<and>
   parseGetCommand [''get'', ''c/abort''] = Some \<lparr>Name = ''get'', QueueName = ''c'', SubCommand = ''abort''\<rparr> \<and>
   openTx ''a'' (session_after [''get'', ''a/close''] holding_session) = Some 0 \<and>
   currentItem (session_after [''get'', ''a/close''] holding_session) = None \<and>
   openTx ''a'' (session_after [''get'', ''a/abort''] holding_session) = Some 0 \<and>
   currentItem (session_after [''get'', ''a/abort''] holding_session) = None \<and>
   map_option fst (Get [''get'', ''b/abort''] holding_session) =
     Some (Some (New ''SERVER_ERROR Queue head can not be less then zero'')) \<and>
   currentItem (session_after [''get'', ''b/abort''] holding_session) = Some first_item \<and>
   Get [''get'', ''bad-name/close''] holding_session =
     Some (Some (New ''SERVER_ERROR Queue name is not alphanumeric''), holding_session) \<and>
   Get [''get'', ''c/abort''] short_key_session = None"
proof -
  have h: "currentItem holding_session = Some first_item"
    using holding_session_holds by simp
  note h' = short_key_session_holds
  have p1: "parseGetCommand [''get'', ''a/close''] =
      Some \<lparr>Name = ''get'', QueueName = ''a'', SubCommand = ''close''\<rparr>"
    and p2: "parseGetCommand [''get'', ''a/abort''] =
      Some \<lparr>Name = ''get'', QueueName = ''a'', SubCommand = ''abort''\<rparr>"
    and p3: "parseGetCommand [''get'', ''b/abort''] =
      Some \<lparr>Name = ''get'', QueueName = ''b'', SubCommand = ''abort''\<rparr>"
    and p4: "parseGetCommand [''get'', ''bad-name/close''] =
      Some \<lparr>Name = ''get'', QueueName = ''bad-name'', SubCommand = ''close''\<rparr>"
    and p5: "parseGetCommand [''get'', ''c/abort''] =
      Some \<lparr>Name = ''get'', QueueName = ''c'', SubCommand = ''abort''\<rparr>"
    by (simp_all add: HasPrefix_def SplitN2_def Trim_def)
  let ?qa = "queue_a\<lparr>head := 1, db := fresh_db, Queue.Stats := \<lparr>OpenTransactions = 1\<rparr>\<rparr>"
  let ?qa' = "queue_a\<lparr>Queue.Stats := \<lparr>OpenTransactions = 1\<rparr>\<rparr>"
  let ?e = "New ''Queue head can not be less then zero''"
  let ?n = "New ''Queue name is not alphanumeric''"
  have pa: "Prepend first_item ?qa = (None, ?qa')"
    by (simp add: eval_defs)
  have pb: "Prepend first_item queue_b = (Some ?e, queue_b)"
    by (simp add: eval_defs)
  have r: "holding_session\<lparr>repo := repo holding_session\<rparr> = holding_session"
    by simp
  have "Get [''get'', ''a/close''] holding_session = Some (None, Fprint (''END'' @ CRLF)
      (setCurrentState None None (holding_session
        \<lparr>repo := put_queue ''a'' (AddOpenTransactions (- 1) ?qa) (repo holding_session)\<rparr>)))"
    using close_and_abort_on_named_queue [OF h p1, where q = ?qa and r = "repo holding_session"]
      GetQueue_holding_a
    by simp
  moreover have "Get [''get'', ''a/abort''] holding_session = Some (None, Fprint (''END'' @ CRLF)
      (setCurrentState None None (holding_session
        \<lparr>repo := put_queue ''a'' (AddOpenTransactions (- 1) ?qa') (repo holding_session)\<rparr>)))"
    using close_and_abort_on_named_queue [OF h p2, where q = ?qa and r = "repo holding_session"
        and ?q1.0 = ?qa']
      GetQueue_holding_a pa
    by simp
  moreover have "Get [''get'', ''b/abort''] holding_session =
      Some (Some (New (''SERVER_ERROR '' @ Error ?e)),
        holding_session\<lparr>repo := put_queue ''b'' queue_b (repo holding_session)\<rparr>)"
    using close_and_abort_on_named_queue [OF h p3, where q = queue_b and r = "repo holding_session"
        and e = ?e and ?q1.0 = queue_b]
      GetQueue_holding_b pb
    by simp
  moreover have "Get [''get'', ''bad-name/close''] holding_session =
      Some (Some (New (''SERVER_ERROR '' @ Error ?n)), holding_session)"
    using close_and_abort_on_named_queue [OF h p4, where err = ?n and r = "repo holding_session"]
      GetQueue_bad_name r
    by simp
  moreover have "Get [''get'', ''c/abort''] short_key_session = None"
    using close_and_abort_on_named_queue [OF h' p5] GetQueue_short_key
    by simp
  ultimately show ?thesis
    using h h' p1 p2 p3 p4 p5
    by (simp add: session_after_def openTx_def put_queue_def setCurrentState_def Fprint_def
        AddOpenTransactions_def)
qed

section \<open>Errors of the store in the GET handlers\<close>

text \<open>
  C9. The handlers drop the error of Dequeue and of Peek. With the queue \<open>f\<close>, whose store
  fails to read, \<^verbatim>\<open>get f\<close> and \<^verbatim>\<open>get f/peek\<close> return no error and answer \<^verbatim>\<open>END\<close>, as for
  an empty queue, although the queue holds an item.
\<close>

theorem store_error_is_dropped:
  "length_q queue_f = 1 \<and>
   snd (fst (Dequeue queue_f)) = Some (ErrIO ''disk full'') \<and>
   snd (fst (Peek queue_f)) = Some (ErrIO ''disk full'') \<and>
   map_option fst (Get [''get'', ''f''] idle_session) = Some None \<and>
   rw (session_after [''get'', ''f''] idle_session) = bytes_of (''END'' @ CRLF) \<and>
   map_option fst (Get [''get'', ''f/peek''] idle_session) = Some None \<and>
   rw (session_after [''get'', ''f/peek''] idle_session) = bytes_of (''END'' @ CRLF)"
  by (simp add: eval_defs)

section \<open>Items of length zero\<close>



section \<open>The parser of the GET argument\<close>

lemma R_nomatch:
  "c \<noteq> CHR ''t'' \<or> take 1 cs \<noteq> ''='' \<Longrightarrow>
     timeoutRegexp_ReplaceAll (c # cs) = c # timeoutRegexp_ReplaceAll cs"
  by (auto simp: timeoutRegexp_ReplaceAll.simps)

lemma not_digit_slash: "\<not> isDigit CHR ''/''"
  by (simp add: isDigit_def)

lemma R_match:
  assumes "ds \<noteq> []" and "list_all isDigit ds" and "rest = [] \<or> (\<exists>r. rest = CHR ''/'' # r)"
  shows "timeoutRegexp_ReplaceAll (''t='' @ ds @ rest) = timeoutRegexp_ReplaceAll (drop 1 rest)"
proof -
  have d: "\<And>x. x \<in> set ds \<Longrightarrow> isDigit x"
    using assms(2) by (simp add: list_all_iff)
  have r: "takeWhile isDigit rest = []" "dropWhile isDigit rest = rest"
    using assms(3) not_digit_slash by auto
  have t: "takeWhile isDigit (ds @ rest) = ds" and dr: "dropWhile isDigit (ds @ rest) = rest"
    using d r by simp_all
  have i: "(if take 1 rest = ''/'' then drop 1 rest else rest) = drop 1 rest"
    using assms(3) by auto
  show ?thesis
    using assms(1) t dr i by (simp add: timeoutRegexp_ReplaceAll.simps(2) [of "CHR ''t''"] Let_def)
qed

lemma R_no_eq:
  assumes "CHR ''='' \<notin> set s" and "rest = [] \<or> (\<exists>r. rest = CHR ''/'' # r)"
  shows "timeoutRegexp_ReplaceAll (s @ rest) = s @ timeoutRegexp_ReplaceAll rest"
  using assms(1)
proof (induction s)
  case Nil
  then show ?case by simp
next
  case (Cons c s)
  have "take 1 (s @ rest) \<noteq> ''=''"
    using Cons.prems assms(2) by (cases s) auto
  then show ?case
    using Cons by (simp add: R_nomatch)
qed

lemma R_id: "\<not> Contains s ''t='' \<Longrightarrow> timeoutRegexp_ReplaceAll s = s"
proof (induction s)
  case Nil
  then show ?case by (simp add: timeoutRegexp_ReplaceAll.simps)
next
  case (Cons c s)
  then have "c \<noteq> CHR ''t'' \<or> take 1 s \<noteq> ''=''"
    by (cases s) (auto simp: HasPrefix_def)
  then show ?case
    using Cons by (simp add: R_nomatch)
qed

lemma Contains_single: "Contains s [c] \<longleftrightarrow> c \<in> set s"
  by (induction s) (auto simp: HasPrefix_def)

lemma slashes_shape:
  "concat (map (\<lambda>t. CHR ''/'' # render t) ts) = [] \<or>
   (\<exists>r. concat (map (\<lambda>t. CHR ''/'' # render t) ts) = CHR ''/'' # r)"
  by (cases ts) auto

lemma R_tokens:
  "list_all token_ok ts \<Longrightarrow>
     \<exists>n. timeoutRegexp_ReplaceAll (drop 1 (concat (map (\<lambda>t. CHR ''/'' # render t) ts)))
          = join_slash (non_timeout ts) @ replicate n CHR ''/''"
proof (induction ts)
  case Nil
  then show ?case by (simp add: timeoutRegexp_ReplaceAll.simps)
next
  case (Cons t ts)
  let ?S = "concat (map (\<lambda>t. CHR ''/'' # render t) ts)"
  from Cons obtain n where n:
    "timeoutRegexp_ReplaceAll (drop 1 ?S) = join_slash (non_timeout ts) @ replicate n CHR ''/''"
    by auto
  show ?case
  proof (cases t)
    case (Timeout ds)
    with Cons.prems have "timeoutRegexp_ReplaceAll (''t='' @ ds @ ?S) = timeoutRegexp_ReplaceAll (drop 1 ?S)"
      using slashes_shape [of ts] by (intro R_match) auto
    with n Timeout show ?thesis by auto
  next
    case (Sub w)
    with Cons.prems have w: "w \<in> set [''open'', ''close'', ''abort'', ''peek'']"
      by simp
    then have "CHR ''='' \<notin> set w" by auto
    then have s: "timeoutRegexp_ReplaceAll (w @ ?S) = w @ timeoutRegexp_ReplaceAll ?S"
      using slashes_shape [of ts] by (intro R_no_eq) auto
    show ?thesis
    proof (cases ts)
      case Nil
      with s Sub show ?thesis
        by (auto simp: timeoutRegexp_ReplaceAll.simps intro: exI [of _ 0])
    next
      case (Cons t' ts')
      then have "timeoutRegexp_ReplaceAll ?S = CHR ''/'' # timeoutRegexp_ReplaceAll (drop 1 ?S)"
        by (simp add: R_nomatch)
      with s n have e: "timeoutRegexp_ReplaceAll (w @ ?S)
          = w @ CHR ''/'' # join_slash (non_timeout ts) @ replicate n CHR ''/''"
        by simp
      show ?thesis
      proof (cases "non_timeout ts")
        case Nil
        with e Sub show ?thesis
          by (auto intro!: exI [of _ "Suc n"])
      next
        case (Cons v vs)
        with e Sub show ?thesis
          by (auto intro!: exI [of _ n])
      qed
    qed
  qed
qed

lemma non_timeout_ok:
  "list_all token_ok ts \<Longrightarrow> list_all (\<lambda>w. w \<in> set [''open'', ''close'', ''abort'', ''peek'']) (non_timeout ts)"
  by (induction ts rule: non_timeout.induct) auto

lemma join_slash_ends:
  "ws \<noteq> [] \<Longrightarrow> list_all (\<lambda>w. w \<in> set [''open'', ''close'', ''abort'', ''peek'']) ws \<Longrightarrow>
     join_slash ws \<noteq> [] \<and> hd (join_slash ws) \<noteq> CHR ''/'' \<and> last (join_slash ws) \<noteq> CHR ''/''"
  by (induction ws rule: join_slash.induct) auto

lemma Trim_join:
  assumes "list_all (\<lambda>w. w \<in> set [''open'', ''close'', ''abort'', ''peek'']) ws"
  shows "Trim (join_slash ws @ replicate n CHR ''/'') = join_slash ws"
proof (cases ws)
  case Nil
  then show ?thesis
    by (simp add: Trim_def)
next
  case (Cons w ws')
  with assms join_slash_ends [of ws] obtain a x where x: "join_slash ws = a # x" "a \<noteq> CHR ''/''"
    and l: "last (join_slash ws) \<noteq> CHR ''/''"
    by (cases "join_slash ws") auto
  have "dropWhile (\<lambda>c. c = CHR ''/'') (join_slash ws @ replicate n CHR ''/'')
      = join_slash ws @ replicate n CHR ''/''"
    using x by simp
  moreover have "dropWhile (\<lambda>c. c = CHR ''/'') (rev (join_slash ws @ replicate n CHR ''/''))
      = rev (join_slash ws)"
  proof -
    have "join_slash ws \<noteq> []"
      using x by simp
    then have "rev (join_slash ws) \<noteq> []" and "hd (rev (join_slash ws)) \<noteq> CHR ''/''"
      using l by (simp_all only: hd_rev rev_is_Nil_conv not_False_eq_True)
    then have "dropWhile (\<lambda>c. c = CHR ''/'') (rev (join_slash ws)) = rev (join_slash ws)"
      by (cases "rev (join_slash ws)") simp_all
    moreover have "dropWhile (\<lambda>c. c = CHR ''/'') (replicate n CHR ''/'' @ rev (join_slash ws))
        = dropWhile (\<lambda>c. c = CHR ''/'') (rev (join_slash ws))"
      by (rule dropWhile_append2) simp
    ultimately show ?thesis
      by simp
  qed
  ultimately show ?thesis
    by (simp add: Trim_def)
qed

lemma name_char_plain: "name_char c \<Longrightarrow> c \<noteq> CHR ''='' \<and> c \<noteq> CHR ''/''"
  by (auto simp: name_char_def)

text \<open>
  C8. For a queue name \<open>q\<close> (characters of \<^verbatim>\<open>[a-zA-Z0-9_]\<close>) and tokens \<open>ts\<close>, each a timeout
  or one of \<^verbatim>\<open>open\<close>, \<^verbatim>\<open>close\<close>, \<^verbatim>\<open>abort\<close>, \<^verbatim>\<open>peek\<close>, the parser returns the queue name \<open>q\<close>
  and, as sub-command, the tokens that are not timeouts joined by \<^verbatim>\<open>/\<close> in their order.
\<close>

theorem parse_get_grammar:
  assumes "list_all name_char q" and "list_all token_ok ts"
  shows "parseGetCommand [verb, get_argument q ts] =
           Some \<lparr>Name = verb, QueueName = q, SubCommand = join_slash (non_timeout ts)\<rparr>"
proof -
  let ?S = "concat (map (\<lambda>t. CHR ''/'' # render t) ts)"
  let ?arg = "get_argument q ts"
  have q: "CHR ''='' \<notin> set q" "CHR ''/'' \<notin> set q"
    using assms(1) name_char_plain by (auto simp: list_all_iff)
  have R: "timeoutRegexp_ReplaceAll ?arg = q @ timeoutRegexp_ReplaceAll ?S"
    unfolding get_argument_def using q(1) slashes_shape [of ts] by (intro R_no_eq) auto
  have arg1: "(if Contains ?arg ''t='' then timeoutRegexp_ReplaceAll ?arg else ?arg)
      = q @ timeoutRegexp_ReplaceAll ?S"
    using R R_id [of ?arg] by auto
  show ?thesis
  proof (cases ts)
    case Nil
    with arg1 have a: "(if Contains ?arg ''t='' then timeoutRegexp_ReplaceAll ?arg else ?arg) = q"
      by (simp add: timeoutRegexp_ReplaceAll.simps)
    have "?arg = q"
      using Nil by (simp add: get_argument_def)
    then show ?thesis
      unfolding parseGetCommand.simps Let_def a
      using q(2) Nil by (simp add: Contains_single)
  next
    case (Cons t ts')
    from R_tokens [OF assms(2)] obtain n where n:
      "timeoutRegexp_ReplaceAll (drop 1 ?S) = join_slash (non_timeout ts) @ replicate n CHR ''/''"
      by auto
    from Cons have "timeoutRegexp_ReplaceAll ?S = CHR ''/'' # timeoutRegexp_ReplaceAll (drop 1 ?S)"
      by (simp add: R_nomatch)
    with n arg1 have a: "(if Contains ?arg ''t='' then timeoutRegexp_ReplaceAll ?arg else ?arg)
        = q @ CHR ''/'' # join_slash (non_timeout ts) @ replicate n CHR ''/''"
      by simp
    have c: "Contains (q @ CHR ''/'' # join_slash (non_timeout ts) @ replicate n CHR ''/'') ''/''"
      by (simp add: Contains_single)
    have s: "SplitN2 (q @ CHR ''/'' # join_slash (non_timeout ts) @ replicate n CHR ''/'')
        = (q, join_slash (non_timeout ts) @ replicate n CHR ''/'')"
    proof -
      have n: "\<And>x. x \<in> set q \<Longrightarrow> x \<noteq> CHR ''/''"
        using q(2) by auto
      show ?thesis
        unfolding SplitN2_def
        by (simp only: takeWhile_append2 [OF n] dropWhile_append2 [OF n]) simp
    qed
    show ?thesis
      unfolding parseGetCommand.simps Let_def a
      using c s Trim_join [OF non_timeout_ok [OF assms(2)], of n]
      by (simp del: Contains.simps)
  qed
qed

theorem parse_get_grammar_witness:
  "list_all name_char ''work'' \<and>
   list_all token_ok [Sub ''close'', Timeout ''10'', Sub ''open'', Sub ''abort''] \<and>
   list_all token_ok [Sub ''open'', Sub ''close''] \<and>
   parseGetCommand [''get'', ''work/close/t=10/open/abort''] =
     Some \<lparr>Name = ''get'', QueueName = ''work'', SubCommand = ''close/open/abort''\<rparr> \<and>
   parseGetCommand [''get'', ''work/open/close''] =
     Some \<lparr>Name = ''get'', QueueName = ''work'', SubCommand = ''open/close''\<rparr>"
proof -
  have q: "list_all name_char ''work''"
    by (simp add: name_char_def)
  have t1: "list_all token_ok [Sub ''close'', Timeout ''10'', Sub ''open'', Sub ''abort'']"
    and t2: "list_all token_ok [Sub ''open'', Sub ''close'']"
    by (simp_all add: isDigit_def)
  from parse_get_grammar [OF q t1, of "''get''"] parse_get_grammar [OF q t2, of "''get''"] q t1 t2
  show ?thesis
    by (simp add: get_argument_def)
qed

section \<open>The invariant of the queue at rest\<close>

lemma at_rest_Enqueue:
  assumes r: "at_rest q" and e: "Enqueue v q = (None, q')" and n: "length_q q \<noteq> - 1"
  shows "at_rest q'"
proof -
  note E = Enqueue_ok [OF e]
  have k: "queue_keys q' = insert (tail q + 1) (queue_keys q)"
    using keys_after_enqueue [OF n] E by simp
  have "tail q + 1 \<notin> queue_keys q"
    by (simp add: queue_keys_def length_q_def)
  then have f: "PutUint64 (tail q + 1) \<notin> fst ` set (kv (db q))"
    using r by (auto simp: at_rest_alt PutUint64_inj)
  have l: "length_q q' = length_q q + 1"
    using E by (simp add: length_q_def)
  show ?thesis
    using r E k f l unat_succ [OF n]
    by (simp add: at_rest_alt sorted_insert_kv keys_insert_kv length_insert_kv)
qed

lemma at_rest_Dequeue:
  assumes r: "at_rest q" and d: "Dequeue q = ((item, None), q')"
  shows "at_rest q'"
proof -
  note D = Dequeue_ok [OF d]
  then have n: "length_q q \<noteq> 0"
    by simp
  have k: "queue_keys q' = queue_keys q - {head q + 1}"
    using keys_after_dequeue [OF n] D by simp
  have "head q + 1 \<in> queue_keys q"
    using n by (simp add: queue_keys_def word_neq_0_conv)
  then have f: "PutUint64 (head q + 1) \<in> fst ` set (kv (db q))"
    using r by (auto simp: at_rest_alt)
  have l: "length_q q' = length_q q - 1"
    using D by (simp add: length_q_def)
  have i: "PutUint64 ` (queue_keys q - {head q + 1}) = PutUint64 ` queue_keys q - {PutUint64 (head q + 1)}"
    by (auto simp: PutUint64_inj)
  have "Suc (length (delete_kv (PutUint64 (head q + 1)) (kv (db q)))) = length (kv (db q))"
    using r f by (intro length_delete_kv) (simp_all add: at_rest_alt)
  then have "length (kv (db q')) = unat (length_q q')"
    using r D l unat_minus_one [OF n] by (simp add: at_rest_alt)
  then show ?thesis
    using r D k i by (simp add: at_rest_alt sorted_delete_kv keys_delete_kv)
qed

lemma at_rest_Prepend:
  assumes r: "at_rest q" and p: "Prepend item q = (None, q')" and n: "length_q q \<noteq> - 1"
  shows "at_rest q'"
proof -
  note P = Prepend_ok [OF p]
  have k: "queue_keys q' = insert (head q) (queue_keys q)"
    using keys_after_prepend [OF n] P by simp
  have "head q \<notin> queue_keys q"
    by (simp add: queue_keys_def)
  then have f: "PutUint64 (head q) \<notin> fst ` set (kv (db q))"
    using r by (auto simp: at_rest_alt PutUint64_inj)
  have l: "length_q q' = length_q q + 1"
    using P by (simp add: length_q_def)
  show ?thesis
    using r P k f l unat_succ [OF n]
    by (simp add: at_rest_alt sorted_insert_kv keys_insert_kv length_insert_kv)
qed

lemma at_rest_Open_empty:
  assumes "Open name dataDir fs = Some (q, None)" and "kv (fs (dataDir @ ''/'' @ name)) = []"
  shows "at_rest q"
  using Open_ok [OF assms(1)] assms(2)
  by (simp add: at_rest_alt queue_keys_def length_q_def)

lemma ordered_Enqueue:
  assumes "head q \<le> tail q" and "Enqueue v q = (None, q')" and "tail q \<noteq> - 1"
  shows "head q' \<le> tail q'"
proof -
  note E = Enqueue_ok [OF assms(2)]
  have "tail q \<le> tail q + 1"
    using assms(3) by (simp add: word_le_nat_alt unat_succ)
  with assms(1) E show ?thesis
    by simp
qed

lemma ordered_Dequeue:
  assumes "head q \<le> tail q" and "Dequeue q = ((x, None), q')"
  shows "head q' \<le> tail q'"
proof -
  note D = Dequeue_ok [OF assms(2)]
  then have "head q \<noteq> tail q"
    by (auto simp: length_q_def)
  with assms(1) have "head q < tail q"
    by simp
  then have "head q + 1 \<le> tail q"
    by (rule inc_le)
  with D show ?thesis
    by simp
qed

lemma ordered_Prepend:
  assumes "head q \<le> tail q" and "Prepend y q = (None, q')"
  shows "head q' \<le> tail q'"
proof -
  note P = Prepend_ok [OF assms(2)]
  then have "head q - 1 \<le> head q"
    using less_eq_dec_self_iff_eq linorder_linear by blast
  with assms(1) P show ?thesis
    by simp
qed

lemma at_rest_fresh_queue: "at_rest fresh_queue"
  by (simp add: at_rest_alt queue_keys_def length_q_def fresh_queue_def fresh_db_def)

lemma Enqueue_fresh_queue: "Enqueue [7] fresh_queue = (None, one_queue)"
  by (simp add: Enqueue_def one_queue_def fresh_queue_def fresh_db_def DB_Put_def next_fault_def
      PutUint64_def Let_def)

lemma at_rest_one_queue: "at_rest one_queue"
  by (rule at_rest_Enqueue [OF at_rest_fresh_queue Enqueue_fresh_queue])
    (simp add: length_q_def fresh_queue_def)

lemma at_rest_two_queue: "at_rest two_queue"
  by (rule at_rest_Enqueue [OF at_rest_one_queue Enqueue_one_queue])
    (simp add: length_q_def one_queue_def fresh_queue_def)

lemma Open_fresh: "Open ''test'' ''data'' (\<lambda>_. fresh_db) = Some (fresh_queue, None)"
  by (simp add: Open_def open_q_def OpenFile_def Path_def next_fault_def initialize_def
      NewIterator_def First_def Last_def move_def Release_def Let_def name_char_def
      fresh_queue_def fresh_db_def)

text \<open>
  C2. \<open>Length\<close> is \<open>tail - head\<close>. For a queue at rest the store holds exactly the keys
  \<open>head + 1\<close> \<dots> \<open>tail\<close>, big-endian encoded, and its ascending iteration yields \<open>Length\<close>
  entries. A queue opened over an empty store is at rest, and every Enqueue, Dequeue and
  Prepend that succeeds leaves a queue at rest at rest (for Enqueue and Prepend, when the
  queue does not already hold \<open>2 ^ 64 - 1\<close> items, the most the counters can count). The
  same operations keep \<open>head \<le> tail\<close> (for Enqueue, when \<open>tail\<close> is not the largest number of
  64 bits).
\<close>

theorem at_rest_preserved:
  "Length q = tail q - head q \<and>
   (at_rest q \<longrightarrow> length (kv (db q)) = unat (Length q) \<and>
      fst ` set (kv (db q)) = PutUint64 ` queue_keys q) \<and>
   (head q \<le> tail q \<longrightarrow> queue_keys q = {k. head q < k \<and> k \<le> tail q}) \<and>
   (at_rest q \<longrightarrow> Enqueue v q = (None, q1) \<longrightarrow> Length q \<noteq> - 1 \<longrightarrow> at_rest q1) \<and>
   (at_rest q \<longrightarrow> Dequeue q = ((x, None), q2) \<longrightarrow> at_rest q2) \<and>
   (at_rest q \<longrightarrow> Prepend y q = (None, q3) \<longrightarrow> Length q \<noteq> - 1 \<longrightarrow> at_rest q3) \<and>
   (head q \<le> tail q \<longrightarrow> Enqueue v q = (None, q1) \<longrightarrow> tail q \<noteq> - 1 \<longrightarrow> head q1 \<le> tail q1) \<and>
   (head q \<le> tail q \<longrightarrow> Dequeue q = ((x, None), q2) \<longrightarrow> head q2 \<le> tail q2) \<and>
   (head q \<le> tail q \<longrightarrow> Prepend y q = (None, q3) \<longrightarrow> head q3 \<le> tail q3) \<and>
   (Open name dataDir fs = Some (q0, None) \<longrightarrow> kv (fs (dataDir @ ''/'' @ name)) = [] \<longrightarrow>
      at_rest q0 \<and> head q0 \<le> tail q0)"
proof -
  have "at_rest q \<Longrightarrow> length (kv (db q)) = unat (Length q) \<and>
      fst ` set (kv (db q)) = PutUint64 ` queue_keys q"
    by (simp add: Length_def at_rest_alt)
  moreover have "Length q = tail q - head q"
    by (simp add: Length_def length_q_def)
  moreover have "head q0 \<le> tail q0"
    if "Open name dataDir fs = Some (q0, None)" and "kv (fs (dataDir @ ''/'' @ name)) = []"
    using Open_ok [OF that(1)] that(2) by simp
  ultimately show ?thesis
    using at_rest_Enqueue [of q v q1] at_rest_Dequeue [of q x q2] at_rest_Prepend [of q y q3]
      at_rest_Open_empty [of name dataDir fs q0] queue_keys_plain [of q]
      ordered_Enqueue [of q v q1] ordered_Dequeue [of q x q2] ordered_Prepend [of q y q3]
    unfolding Length_def by blast
qed

theorem at_rest_preserved_witness:
  "at_rest fresh_queue \<and> head fresh_queue \<le> tail fresh_queue \<and>
   Length fresh_queue \<noteq> - 1 \<and> tail fresh_queue \<noteq> - 1 \<and>
   Enqueue [7] fresh_queue = (None, one_queue) \<and>
   at_rest one_queue \<and> head one_queue \<le> tail one_queue \<and>
   Dequeue one_queue = ((first_item, None), dequeued_queue) \<and>
   at_rest dequeued_queue \<and> head dequeued_queue \<le> tail dequeued_queue \<and>
   Length dequeued_queue \<noteq> - 1 \<and>
   Prepend first_item dequeued_queue = (None, one_queue) \<and>
   Open ''test'' ''data'' (\<lambda>_. fresh_db) = Some (fresh_queue, None) \<and>
   kv ((\<lambda>_. fresh_db) (''data'' @ ''/'' @ ''test'')) = []"
proof -
  have l: "Length fresh_queue \<noteq> - 1" "Length dequeued_queue \<noteq> - 1" "tail fresh_queue \<noteq> - 1"
    by (simp_all add: Length_def length_q_def fresh_queue_def dequeued_queue_def one_queue_def)
  have k: "kv ((\<lambda>_. fresh_db) (''data'' @ ''/'' @ ''test'')) = []"
    by (simp add: fresh_db_def)
  note t1 = at_rest_preserved [where q = fresh_queue and v = "[7]" and ?q1.0 = one_queue
      and name = "''test''" and dataDir = "''data''" and fs = "\<lambda>_. fresh_db"
      and ?q0.0 = fresh_queue]
  then have a1: "at_rest fresh_queue" "head fresh_queue \<le> tail fresh_queue"
    using Open_fresh k by blast+
  with t1 l Enqueue_fresh_queue have a2: "at_rest one_queue" "head one_queue \<le> tail one_queue"
    by blast+
  note t2 = at_rest_preserved [where q = one_queue and x = first_item
      and ?q2.0 = dequeued_queue]
  with a2 Dequeue_one_queue
  have a3: "at_rest dequeued_queue" "head dequeued_queue \<le> tail dequeued_queue"
    by blast+
  note t3 = at_rest_preserved [where q = dequeued_queue and y = first_item
      and ?q3.0 = one_queue]
  with a3 l Prepend_dequeued_queue have "at_rest one_queue"
    by blast
  with a1 a2 a3 l k Enqueue_fresh_queue Dequeue_one_queue Prepend_dequeued_queue Open_fresh
  show ?thesis
    by blast
qed

section \<open>Opening a queue over a store\<close>

lemma Uint64_defined: "8 \<le> length b \<Longrightarrow> \<exists>k. Uint64 b = Some k"
  by (simp add: Uint64_def)

lemma Open_succeeds:
  assumes "list_all name_char name" and "length name \<le> 100"
    and "faults (fs (dataDir @ ''/'' @ name)) = []"
    and "list_all (\<lambda>e. 8 \<le> length (fst e)) (kv (fs (dataDir @ ''/'' @ name)))"
  shows "\<exists>q. Open name dataDir fs = Some (q, None)"
proof -
  let ?d = "fs (dataDir @ ''/'' @ name)"
  show ?thesis
  proof (cases "kv ?d")
    case Nil
    with assms show ?thesis
      by (simp add: Open_def open_q_def OpenFile_def Path_def next_fault_def initialize_def
          NewIterator_def First_def Last_def move_def Let_def)
  next
    case (Cons e r)
    with assms(4) have "8 \<le> length (fst e)" "8 \<le> length (fst (last (e # r)))"
      by (simp_all add: list_all_iff)
    then obtain a b where "Uint64 (fst e) = Some a" "Uint64 (fst (last (e # r))) = Some b"
      using Uint64_defined by blast
    with assms Cons show ?thesis
      by (simp add: Open_def open_q_def OpenFile_def Path_def next_fault_def initialize_def
          NewIterator_def First_def Last_def move_def Key_it_def Let_def)
  qed
qed

lemma reopen_at_rest:
  assumes o: "Open name dataDir fs = Some (q, None)"
    and r: "at_rest p" and le: "head p \<le> tail p"
    and s: "kv (fs (dataDir @ ''/'' @ name)) = kv (db p)"
  shows "Length q = Length p \<and> unat (Length q) = length (kv (db q)) \<and>
         (kv (db p) \<noteq> [] \<longrightarrow> head q = head p \<and> tail q = tail p)"
proof -
  note O = Open_ok [OF o]
  from O s have kq: "kv (db q) = kv (db p)"
    by simp
  from r have len: "length (kv (db p)) = unat (length_q p)"
    by (simp add: at_rest_alt)
  show ?thesis
  proof (cases "kv (db p) = []")
    case True
    with len have "length_q p = 0"
      by (simp add: unat_eq_zero)
    with True O kq show ?thesis
      by (simp add: Length_def length_q_def)
  next
    case False
    with len have n: "length_q p \<noteq> 0"
      by auto
    with le have lt: "head p < tail p"
      by (auto simp: length_q_def order_less_le)
    let ?ks = "map fst (kv (db p))"
    from r have srt: "sorted_wrt (<) ?ks" and ks: "set ?ks = PutUint64 ` queue_keys p"
      by (simp_all add: at_rest_alt)
    have K: "queue_keys p = {k. head p < k \<and> k \<le> tail p}"
      using le by (rule queue_keys_plain)
    have "head p \<noteq> - 1"
      using lt by (metis word_order.extremum_strict)
    then have "head p < head p + 1"
      by (simp add: word_less_nat_alt unat_succ)
    then have h1: "head p + 1 \<in> queue_keys p" and t1: "tail p \<in> queue_keys p"
      using lt unfolding K by (simp_all add: inc_le)
    have "Min (set ?ks) = PutUint64 (head p + 1)"
      unfolding ks
    proof (rule Min_eqI)
      show "finite (PutUint64 ` queue_keys p)" by simp
      show "PutUint64 (head p + 1) \<in> PutUint64 ` queue_keys p"
        using h1 by simp
      show "PutUint64 (head p + 1) \<le> y" if "y \<in> PutUint64 ` queue_keys p" for y
        using that unfolding K by (auto simp: PutUint64_le inc_le)
    qed
    moreover have "Max (set ?ks) = PutUint64 (tail p)"
      unfolding ks
    proof (rule Max_eqI)
      show "finite (PutUint64 ` queue_keys p)" by simp
      show "PutUint64 (tail p) \<in> PutUint64 ` queue_keys p"
        using t1 by simp
      show "y \<le> PutUint64 (tail p)" if "y \<in> PutUint64 ` queue_keys p" for y
        using that unfolding K by (auto simp: PutUint64_le)
    qed
    moreover have "hd ?ks = Min (set ?ks)" "last ?ks = Max (set ?ks)"
      using srt False by (simp_all add: sorted_hd_Min sorted_last_Max)
    ultimately have "fst (hd (kv (db p))) = PutUint64 (head p + 1)"
      "fst (last (kv (db p))) = PutUint64 (tail p)"
      using False by (simp_all add: hd_map last_map)
    with O kq False have "head q = head p" "tail q = tail p"
      by (simp_all add: Uint64_PutUint64)
    with len kq show ?thesis
      by (simp add: Length_def length_q_def)
  qed
qed

lemma Open_two_queue: "Open ''test'' ''data'' (\<lambda>_. db two_queue) = Some (two_queue, None)"
  by (simp add: Open_def open_q_def OpenFile_def Path_def next_fault_def initialize_def
      NewIterator_def First_def Last_def move_def Release_def Key_it_def Uint64_def Let_def
      name_char_def two_queue_def one_queue_def fresh_queue_def fresh_db_def)

text \<open>
  C7. Open succeeds over every store whose calls work and whose keys have 8 bytes or more,
  for a well-formed name. When it succeeds, the queue works on the entries found; over an
  empty store \<open>head\<close> and \<open>tail\<close> are 0; otherwise \<open>head\<close> is the number read from the first key
  of the iteration minus one and \<open>tail\<close> the number read from the last key, the first and
  the last key being the smallest and the largest of the store. So over the store that a
  queue at rest (with \<open>head \<le> tail\<close>) has left, \<open>Length\<close> is as it was and is the number of
  entries of the store.
\<close>

theorem Open_counters:
  "(list_all name_char name \<longrightarrow> length name \<le> 100 \<longrightarrow>
      faults (fs (dataDir @ ''/'' @ name)) = [] \<longrightarrow>
      list_all (\<lambda>e. 8 \<le> length (fst e)) (kv (fs (dataDir @ ''/'' @ name))) \<longrightarrow>
      (\<exists>q. Open name dataDir fs = Some (q, None))) \<and>
   (Open name dataDir fs = Some (q, None) \<longrightarrow>
      kv (db q) = kv (fs (dataDir @ ''/'' @ name)) \<and>
      (kv (db q) = [] \<longrightarrow> head q = 0 \<and> tail q = 0 \<and> Length q = 0) \<and>
      (kv (db q) \<noteq> [] \<longrightarrow>
         (\<exists>k. Uint64 (fst (hd (kv (db q)))) = Some k \<and> head q = k - 1) \<and>
         Uint64 (fst (last (kv (db q)))) = Some (tail q) \<and>
         (sorted_wrt (<) (map fst (kv (db q))) \<longrightarrow>
            fst (hd (kv (db q))) = Min (fst ` set (kv (db q))) \<and>
            fst (last (kv (db q))) = Max (fst ` set (kv (db q))))) \<and>
      (at_rest p \<longrightarrow> head p \<le> tail p \<longrightarrow> kv (fs (dataDir @ ''/'' @ name)) = kv (db p) \<longrightarrow>
         Length q = Length p \<and> unat (Length q) = length (kv (db q)) \<and>
         (kv (db p) \<noteq> [] \<longrightarrow> head q = head p \<and> tail q = tail p)))"
proof -
  have a: "kv (db q) = kv (fs (dataDir @ ''/'' @ name)) \<and>
      (kv (db q) = [] \<longrightarrow> head q = 0 \<and> tail q = 0 \<and> Length q = 0) \<and>
      (kv (db q) \<noteq> [] \<longrightarrow>
         (\<exists>k. Uint64 (fst (hd (kv (db q)))) = Some k \<and> head q = k - 1) \<and>
         Uint64 (fst (last (kv (db q)))) = Some (tail q) \<and>
         (sorted_wrt (<) (map fst (kv (db q))) \<longrightarrow>
            fst (hd (kv (db q))) = Min (fst ` set (kv (db q))) \<and>
            fst (last (kv (db q))) = Max (fst ` set (kv (db q)))))"
    if o: "Open name dataDir fs = Some (q, None)"
  proof -
    note O = Open_ok [OF o]
    have "fst (hd (kv (db q))) = Min (fst ` set (kv (db q))) \<and>
          fst (last (kv (db q))) = Max (fst ` set (kv (db q)))"
      if "sorted_wrt (<) (map fst (kv (db q)))" and "kv (db q) \<noteq> []"
      using sorted_hd_Min [OF that(1)] sorted_last_Max [OF that(1)] that(2)
      by (simp add: hd_map last_map)
    with O show ?thesis
      by (auto simp: Length_def length_q_def)
  qed
  from a Open_succeeds [of name fs dataDir] reopen_at_rest [of name dataDir fs q p]
  show ?thesis
    by blast
qed

theorem Open_counters_witness:
  "list_all name_char ''test'' \<and> length ''test'' \<le> 100 \<and>
   faults (db two_queue) = [] \<and> list_all (\<lambda>e. 8 \<le> length (fst e)) (kv (db two_queue)) \<and>
   Open ''test'' ''data'' (\<lambda>_. db two_queue) = Some (two_queue, None) \<and>
   kv (db two_queue) \<noteq> [] \<and> sorted_wrt (<) (map fst (kv (db two_queue))) \<and>
   at_rest two_queue \<and> head two_queue \<le> tail two_queue \<and>
   head two_queue = 0 \<and> tail two_queue = 2 \<and>
   Uint64 (fst (hd (kv (db two_queue)))) = Some 1 \<and>
   Uint64 (fst (last (kv (db two_queue)))) = Some 2 \<and>
   Length two_queue = 2 \<and> unat (Length two_queue) = length (kv (db two_queue))"
proof -
  have n: "list_all name_char ''test''" "length ''test'' \<le> 100"
    by (simp_all add: name_char_def)
  have d: "faults (db two_queue) = []" "list_all (\<lambda>e. 8 \<le> length (fst e)) (kv (db two_queue))"
    "kv (db two_queue) \<noteq> []" "sorted_wrt (<) (map fst (kv (db two_queue)))"
    by (simp_all add: two_queue_def)
  have h: "head two_queue \<le> tail two_queue" "head two_queue = 0" "tail two_queue = 2"
    "Length two_queue = 2"
    by (simp_all add: two_queue_def one_queue_def fresh_queue_def Length_def length_q_def)
  note t = Open_counters [where name = "''test''" and dataDir = "''data''"
      and fs = "\<lambda>_. db two_queue" and q = two_queue and p = two_queue]
  from t Open_two_queue at_rest_two_queue h(1)
  have "unat (Length two_queue) = length (kv (db two_queue))"
    by blast
  moreover from t Open_two_queue d(3) h(2)
  have "Uint64 (fst (hd (kv (db two_queue)))) = Some 1"
    "Uint64 (fst (last (kv (db two_queue)))) = Some 2"
    using h(3) by auto
  ultimately show ?thesis
    using n d h Open_two_queue at_rest_two_queue by blast
qed

section \<open>First in, first out\<close>

lemma of_nat_neq:
  fixes n :: uint64
  assumes "i < unat n"
  shows "of_nat i \<noteq> n"
proof
  assume "of_nat i = n"
  moreover have "unat n < 2 ^ 64"
    using unsigned_less [of n] by simp
  then have "i < 2 ^ 64"
    using assms by simp
  ultimately have "unat n = i"
    using unat_of_nat_small by blast
  with assms show False
    by simp
qed

lemma unat_max_word: "unat (- 1 :: uint64) = 2 ^ 64 - 1"
  by (simp add: unsigned_minus_1_eq_mask mask_eq_exp_minus_1)

lemma queue_values_Enqueue:
  assumes v: "queue_values q xs" and e: "Enqueue x q = (None, q')" and n: "Suc (length xs) < 2 ^ 64"
  shows "queue_values q' (xs @ [x])"
proof -
  note E = Enqueue_ok [OF e]
  from v have len: "length xs = unat (length_q q)"
    by (simp add: queue_values_def)
  with n have m: "length_q q \<noteq> - 1"
    using unat_max_word by auto
  have l: "length_q q' = length_q q + 1"
    using E by (simp add: length_q_def)
  have t: "head q + 1 + of_nat (length xs) = tail q + 1"
    using len by (simp add: length_q_def)
  have "map_of (kv (db q')) (PutUint64 (head q' + 1 + of_nat i)) = Some ((xs @ [x]) ! i)"
    if "i < Suc (length xs)" for i
  proof (cases "i = length xs")
    case True
    with E t have k: "head q' + 1 + of_nat i = tail q + 1"
      by simp
    show ?thesis
      unfolding k using E True by (simp add: map_of_insert_kv)
  next
    case False
    with that have i: "i < length xs"
      by simp
    with len have "of_nat i \<noteq> length_q q"
      by (simp add: of_nat_neq)
    have "head q + 1 + of_nat i \<noteq> tail q + 1"
    proof
      assume "head q + 1 + of_nat i = tail q + 1"
      then have "head q + of_nat i = tail q"
        by simp
      then have "of_nat i = tail q - head q"
        by (metis add_diff_cancel_left')
      with \<open>of_nat i \<noteq> length_q q\<close> show False
        by (simp add: length_q_def)
    qed
    with E v i show ?thesis
      by (simp add: map_of_insert_kv PutUint64_inj queue_values_def nth_append)
  qed
  then show ?thesis
    using len l unat_succ [OF m] by (simp add: queue_values_def)
qed

lemma queue_values_Dequeue:
  assumes v: "queue_values q xs" and d: "Dequeue q = ((item, None), q')"
  shows "\<exists>ys. xs = Value item # ys \<and> queue_values q' ys"
proof -
  note D = Dequeue_ok [OF d]
  from v have len: "length xs = unat (length_q q)"
    by (simp add: queue_values_def)
  from D have n: "length_q q \<noteq> 0"
    by simp
  with len have "xs \<noteq> []"
    by (auto simp: unat_eq_zero)
  then obtain y ys where xs: "xs = y # ys"
    by (cases xs) auto
  from v xs have "map_of (kv (db q)) (PutUint64 (head q + 1 + of_nat 0)) = Some y"
    unfolding queue_values_def by (metis length_greater_0_conv list.discI nth_Cons_0)
  with D have y: "y = Value item"
    by simp
  have l: "length_q q' = length_q q - 1"
    using D by (simp add: length_q_def)
  have b: "length xs < 2 ^ 64"
    using len unsigned_less [of "length_q q"] by simp
  have "map_of (kv (db q')) (PutUint64 (head q' + 1 + of_nat i)) = Some (ys ! i)"
    if "i < length ys" for i
  proof -
    from that xs b have "Suc i < 2 ^ 64"
      by simp
    then have "unat (of_nat (Suc i) :: uint64) = Suc i"
      by (rule unat_of_nat_small)
    then have "(of_nat (Suc i) :: uint64) \<noteq> 0"
      by (metis nat.simps(3) unat_0)
    then have k: "head q + 1 + of_nat (Suc i) \<noteq> head q + 1"
      by simp
    have e: "head q' + 1 + of_nat i = head q + 1 + of_nat (Suc i)"
      using D by simp
    from v xs that have "map_of (kv (db q)) (PutUint64 (head q + 1 + of_nat (Suc i))) = Some (ys ! i)"
      unfolding queue_values_def by (metis Suc_less_eq length_Cons nth_Cons_Suc)
    with D k show ?thesis
      unfolding e by (simp add: map_of_delete_kv PutUint64_inj)
  qed
  then have "queue_values q' ys"
    using len l xs unat_minus_one [OF n] by (simp add: queue_values_def)
  with xs y show ?thesis
    by simp
qed

lemma queue_values_Enqueues:
  "queue_values q xs \<Longrightarrow> length xs + length vs < 2 ^ 64 \<Longrightarrow> Enqueues vs q = (errs, q') \<Longrightarrow>
     list_all (\<lambda>e. e = None) errs \<Longrightarrow> queue_values q' (xs @ vs)"
proof (induction vs arbitrary: q xs errs)
  case Nil
  then show ?case by simp
next
  case (Cons v vs)
  obtain e q1 where e: "Enqueue v q = (e, q1)"
    by (metis surj_pair)
  obtain es q2 where es: "Enqueues vs q1 = (es, q2)"
    by (metis surj_pair)
  from Cons.prems(3,4) e es have n: "e = None" "list_all (\<lambda>e. e = None) es" "q2 = q'"
    by auto
  from Cons.prems(1,2) e n have "queue_values q1 (xs @ [v])"
    by (intro queue_values_Enqueue) auto
  from Cons.IH [OF this _ es [unfolded n(3)] n(2)] Cons.prems(2) show ?case
    by simp
qed

lemma queue_values_Dequeues:
  "queue_values q xs \<Longrightarrow> Dequeues m q = (rs, q') \<Longrightarrow> list_all (\<lambda>r. snd r = None) rs \<Longrightarrow>
     map (\<lambda>r. Value (fst r)) rs = take m xs"
proof (induction m arbitrary: q xs rs)
  case 0
  then show ?case by simp
next
  case (Suc m)
  obtain item e q1 where d: "Dequeue q = ((item, e), q1)"
    by (metis surj_pair)
  obtain rs' q2 where ds: "Dequeues m q1 = (rs', q2)"
    by (metis surj_pair)
  from Suc.prems(2,3) d ds have n: "e = None" "list_all (\<lambda>r. snd r = None) rs'"
    "rs = (item, e) # rs'" "q2 = q'"
    by auto
  from queue_values_Dequeue [OF Suc.prems(1) d [unfolded n(1)]]
  obtain ys where ys: "xs = Value item # ys" "queue_values q1 ys"
    by auto
  from Suc.IH [OF ys(2) ds [unfolded n(4)] n(2)] ys(1) n(3) show ?case
    by simp
qed

lemma next_fault_works:
  assumes "list_all (\<lambda>f. f = None) (faults d)"
  shows "\<exists>d'. next_fault d = (None, d') \<and> kv d' = kv d \<and> list_all (\<lambda>f. f = None) (faults d')"
  using assms by (cases "faults d") (simp_all add: next_fault_def)

lemma Enqueue_works:
  assumes "list_all (\<lambda>f. f = None) (faults (db q))"
  shows "\<exists>q'. Enqueue v q = (None, q') \<and> list_all (\<lambda>f. f = None) (faults (db q'))"
proof -
  from next_fault_works [OF assms] obtain d where
    "next_fault (db q) = (None, d)" "list_all (\<lambda>f. f = None) (faults d)"
    by blast
  then show ?thesis
    by (simp add: Enqueue_def DB_Put_def Let_def)
qed

lemma Dequeue_works:
  assumes v: "queue_values q (x # xs)" and w: "list_all (\<lambda>f. f = None) (faults (db q))"
  shows "\<exists>item q'. Dequeue q = ((item, None), q') \<and> list_all (\<lambda>f. f = None) (faults (db q'))"
proof -
  from v have "unat (length_q q) \<noteq> 0"
    by (auto simp: queue_values_def)
  then have n: "\<not> length_q q < 1"
    by (simp add: word_less_nat_alt)
  from v have "map_of (kv (db q)) (PutUint64 (head q + 1 + of_nat 0)) = Some ((x # xs) ! 0)"
    unfolding queue_values_def by (metis length_greater_0_conv list.discI)
  then have g: "map_of (kv (db q)) (PutUint64 (head q + 1)) = Some x"
    by simp
  from next_fault_works [OF w] obtain d1 where
    d1: "next_fault (db q) = (None, d1)" "kv d1 = kv (db q)" "list_all (\<lambda>f. f = None) (faults d1)"
    by blast
  from next_fault_works [OF d1(3)] obtain d2 where
    d2: "next_fault d1 = (None, d2)" "list_all (\<lambda>f. f = None) (faults d2)"
    by blast
  show ?thesis
    using n g d1 d2
    by (simp add: Dequeue_def peek_def DB_Get_def DB_Delete_def Let_def)
qed

lemma Enqueues_work:
  "list_all (\<lambda>f. f = None) (faults (db q)) \<Longrightarrow>
     \<exists>q'. Enqueues vs q = (replicate (length vs) None, q') \<and>
          list_all (\<lambda>f. f = None) (faults (db q'))"
proof (induction vs arbitrary: q)
  case Nil
  then show ?case by simp
next
  case (Cons v vs)
  from Enqueue_works [OF Cons.prems] obtain q1 where
    e: "Enqueue v q = (None, q1)" and f: "list_all (\<lambda>f. f = None) (faults (db q1))"
    by blast
  from Cons.IH [OF f] obtain q' where
    "Enqueues vs q1 = (replicate (length vs) None, q')" "list_all (\<lambda>f. f = None) (faults (db q'))"
    by blast
  with e show ?case
    by simp
qed

lemma Dequeues_work:
  "queue_values q xs \<Longrightarrow> list_all (\<lambda>f. f = None) (faults (db q)) \<Longrightarrow> m \<le> length xs \<Longrightarrow>
     \<exists>rs q'. Dequeues m q = (rs, q') \<and> list_all (\<lambda>r. snd r = None) rs"
proof (induction m arbitrary: q xs)
  case 0
  then show ?case by simp
next
  case (Suc m)
  from Suc.prems(3) obtain x ys where xs: "xs = x # ys"
    by (cases xs) auto
  from Dequeue_works [OF Suc.prems(1) [unfolded xs] Suc.prems(2)] obtain item q1 where
    d: "Dequeue q = ((item, None), q1)" and f: "list_all (\<lambda>f. f = None) (faults (db q1))"
    by blast
  from queue_values_Dequeue [OF Suc.prems(1) d] xs have v: "queue_values q1 ys"
    by auto
  from Suc.prems(3) xs have "m \<le> length ys"
    by simp
  from Suc.IH [OF v f this] obtain rs q' where
    "Dequeues m q1 = (rs, q')" "list_all (\<lambda>r. snd r = None) rs"
    by blast
  with d show ?case
    by simp
qed

lemma Enqueues_fresh_queue: "Enqueues [[7], [8]] fresh_queue = ([None, None], two_queue)"
  by (simp add: Enqueue_fresh_queue Enqueue_one_queue)

lemma Dequeue_two_queue:
  "Dequeue two_queue = ((first_item, None), two_queue\<lparr>head := 1,
     db := \<lparr>kv = [([0, 0, 0, 0, 0, 0, 0, 2], [8])], faults = []\<rparr>\<rparr>)"
  by (simp add: Dequeue_def peek_def length_q_def two_queue_def one_queue_def fresh_queue_def
      first_item_def DB_Get_def DB_Delete_def delete_kv_def next_fault_def PutUint64_def Let_def)

lemma Dequeue_two_queue_again:
  "Dequeue (two_queue\<lparr>head := 1, db := \<lparr>kv = [([0, 0, 0, 0, 0, 0, 0, 2], [8])], faults = []\<rparr>\<rparr>)
     = ((second_item, None), emptied_queue)"
  by (simp add: Dequeue_def peek_def length_q_def two_queue_def one_queue_def fresh_queue_def
      fresh_db_def second_item_def emptied_queue_def DB_Get_def DB_Delete_def delete_kv_def
      next_fault_def PutUint64_def Let_def)

lemma Dequeues_two_queue:
  "Dequeues (Suc (Suc 0)) two_queue = ([(first_item, None), (second_item, None)], emptied_queue)"
  by (simp add: Dequeue_two_queue Dequeue_two_queue_again)

text \<open>
  C1. Starting from an empty queue and with fewer than \<open>2 ^ 64\<close> values \<open>vs\<close>:

  \<^item> when the values are enqueued and every Enqueue succeeds, and then \<open>m\<close> Dequeues follow
    and every one succeeds, the values the Dequeues return are the first \<open>m\<close> of \<open>vs\<close>, in
    the order of the Enqueues and byte for byte; with as many Dequeues as Enqueues they are
    \<open>vs\<close>. This holds whatever the store does in the calls that succeed or fail around them;

  \<^item> over a store of which no call fails, the Enqueues do succeed, every one of them, and so
    do \<open>n\<close> Dequeues after them, for every \<open>n\<close> up to the number of values; they return the
    first \<open>n\<close> of \<open>vs\<close>;

  \<^item> the lexicographic order of the encoded keys is the order of their numbers.
\<close>

theorem fifo_round_trip:
  assumes "Length q = 0" and "length vs < 2 ^ 64"
  shows "(Enqueues vs q = (errs, q1) \<longrightarrow> list_all (\<lambda>e. e = None) errs \<longrightarrow>
          Dequeues m q1 = (rs, q2) \<longrightarrow> list_all (\<lambda>r. snd r = None) rs \<longrightarrow>
            map (\<lambda>r. Value (fst r)) rs = take m vs \<and>
            (m = length vs \<longrightarrow> map (\<lambda>r. Value (fst r)) rs = vs)) \<and>
         (list_all (\<lambda>f. f = None) (faults (db q)) \<longrightarrow> n \<le> length vs \<longrightarrow>
            (\<exists>q1' rs' q2'. Enqueues vs q = (replicate (length vs) None, q1') \<and>
               Dequeues n q1' = (rs', q2') \<and> list_all (\<lambda>r. snd r = None) rs' \<and>
               map (\<lambda>r. Value (fst r)) rs' = take n vs)) \<and>
         (PutUint64 a < PutUint64 b \<longleftrightarrow> a < b)"
proof -
  from assms(1) have e: "queue_values q []"
    by (simp add: queue_values_def Length_def)
  have v: "queue_values q' vs"
    if "Enqueues vs q = (es, q')" "list_all (\<lambda>e. e = None) es" for es q'
    using queue_values_Enqueues [OF e _ that] assms(2) by simp
  have 1: "map (\<lambda>r. Value (fst r)) rs = take m vs \<and>
      (m = length vs \<longrightarrow> map (\<lambda>r. Value (fst r)) rs = vs)"
    if "Enqueues vs q = (errs, q1)" "list_all (\<lambda>e. e = None) errs"
      "Dequeues m q1 = (rs, q2)" "list_all (\<lambda>r. snd r = None) rs"
    using queue_values_Dequeues [OF v [OF that(1,2)] that(3,4)] by simp
  have 2: "\<exists>q1' rs' q2'. Enqueues vs q = (replicate (length vs) None, q1') \<and>
      Dequeues n q1' = (rs', q2') \<and> list_all (\<lambda>r. snd r = None) rs' \<and>
      map (\<lambda>r. Value (fst r)) rs' = take n vs"
    if w: "list_all (\<lambda>f. f = None) (faults (db q))" and n: "n \<le> length vs"
  proof -
    from Enqueues_work [OF w] obtain q' where
      q': "Enqueues vs q = (replicate (length vs) None, q')"
        "list_all (\<lambda>f. f = None) (faults (db q'))"
      by blast
    have "list_all (\<lambda>e. e = None) (replicate (length vs) (None :: error option))"
      by (simp add: list_all_iff)
    from v [OF q'(1) this] have qv: "queue_values q' vs" .
    from Dequeues_work [OF qv q'(2) n] obtain rs' q2' where
      d: "Dequeues n q' = (rs', q2')" "list_all (\<lambda>r. snd r = None) rs'"
      by blast
    from queue_values_Dequeues [OF qv d] q'(1) d show ?thesis
      by blast
  qed
  have 3: "PutUint64 a < PutUint64 b \<longleftrightarrow> a < b"
    by (simp add: PutUint64_less)
  from 1 2 3 show ?thesis
    by blast
qed

theorem fifo_round_trip_witness:
  "Length fresh_queue = 0 \<and> length [[7], [8 :: byte]] < 2 ^ 64 \<and>
   list_all (\<lambda>f. f = None) (faults (db fresh_queue)) \<and>
   Enqueues [[7], [8]] fresh_queue = ([None, None], two_queue) \<and>
   list_all (\<lambda>e. e = None) [None, None :: error option] \<and>
   Dequeues (Suc (Suc 0)) two_queue = ([(first_item, None), (second_item, None)], emptied_queue) \<and>
   list_all (\<lambda>r. snd r = None) [(first_item, None :: error option), (second_item, None)] \<and>
   map (\<lambda>r. Value (fst r)) [(first_item, None :: error option), (second_item, None)] = [[7], [8]]"
proof -
  have l: "Length fresh_queue = 0"
    by (simp add: Length_def length_q_def fresh_queue_def)
  have n: "length [[7], [8 :: byte]] < 2 ^ 64"
    by simp
  have w: "list_all (\<lambda>f. f = None) (faults (db fresh_queue))"
    by (simp add: fresh_queue_def fresh_db_def)
  have e: "list_all (\<lambda>e. e = None) [None, None :: error option]"
    and r: "list_all (\<lambda>r. snd r = None) [(first_item, None :: error option), (second_item, None)]"
    by simp_all
  from fifo_round_trip [OF l n, where errs = "[None, None]" and ?q1.0 = two_queue
      and m = "Suc (Suc 0)" and rs = "[(first_item, None), (second_item, None)]"
      and ?q2.0 = emptied_queue and n = "Suc (Suc 0)" and a = 1 and b = 2]
    l n w e r Enqueues_fresh_queue Dequeues_two_queue
  show ?thesis
    by simp
qed

end
